theory Spec2Isabelle
  imports Main "HOL-Library.Char_ord" "HOL-Library.List_Lexorder" "HOL-Library.AList"
begin

section \<open>Documents\<close>

text \<open>
  The differ of \<^verbatim>\<open>nbdime/diffing/generic.py\<close> works on json-like Python values. A value
  is \<^verbatim>\<open>None\<close>, a boolean, an integer, a string, a list or a dict with string keys. A
  dict is an association list; the code reads a dict only through \<^verbatim>\<open>set(a.keys())\<close>,
  \<^verbatim>\<open>a[key]\<close> and \<^verbatim>\<open>==\<close>, none of which sees the insertion order. Floats are
  left out.
\<close>

datatype val =
    VNone
  | VBool bool
  | VInt int
  | VStr string
  | VList "val list"
  | VDict "(string \<times> val) list"

text \<open>The result of Python's \<^verbatim>\<open>type(x)\<close> on a value.\<close>

datatype pytype = TNone | TBool | TInt | TStr | TList | TDict

fun type_of :: "val \<Rightarrow> pytype" where
  "type_of VNone = TNone"
| "type_of (VBool _) = TBool"
| "type_of (VInt _) = TInt"
| "type_of (VStr _) = TStr"
| "type_of (VList _) = TList"
| "type_of (VDict _) = TDict"

text \<open>
  Python's \<^verbatim>\<open>==\<close> on these values: booleans are the integers 0 and 1, lists compare
  elementwise, dicts compare as maps. The map of an association list is \<open>map_of\<close>: the
  first pair of a key is its binding, a later pair of the same key is not read.
\<close>

fun py_eq :: "val \<Rightarrow> val \<Rightarrow> bool" where
  "py_eq VNone y = (y = VNone)"
| "py_eq (VBool p) y =
     (case y of VBool q \<Rightarrow> p = q | VInt n \<Rightarrow> n = (if p then 1 else 0) | _ \<Rightarrow> False)"
| "py_eq (VInt m) y =
     (case y of VInt n \<Rightarrow> m = n | VBool q \<Rightarrow> m = (if q then 1 else 0) | _ \<Rightarrow> False)"
| "py_eq (VStr s) y = (y = VStr s)"
| "py_eq (VList xs) y = (case y of VList ys \<Rightarrow> list_all2 py_eq xs ys | _ \<Rightarrow> False)"
| "py_eq (VDict kvs) y =
     (case y of
        VDict kws \<Rightarrow>
          set (map fst kvs) = set (map fst kws) \<and>
          list_all
            (\<lambda>(k, v). map_of kvs k \<noteq> Some v \<or>
               (case map_of kws k of Some w \<Rightarrow> py_eq v w | None \<Rightarrow> False)) kvs
      | _ \<Rightarrow> False)"

text \<open>
  \<^verbatim>\<open>is_atomic\<close> (generic.py, line 22): everything but a string, a list or a dict.
\<close>

fun is_atomic :: "val \<Rightarrow> bool" where
  "is_atomic (VStr _) = False"
| "is_atomic (VList _) = False"
| "is_atomic (VDict _) = False"
| "is_atomic _ = True"

text \<open>
  A document composed only of sequences, mappings and text: no atomic scalar anywhere.
\<close>

fun composite :: "val \<Rightarrow> bool" where
  "composite (VStr _) = True"
| "composite (VList xs) = list_all composite xs"
| "composite (VDict kvs) = list_all (\<lambda>(k, v). composite v) kvs"
| "composite _ = False"

section \<open>Diffs, errors and the registries\<close>

text \<open>
  Modelled from the spec: \<^verbatim>\<open>nbdime/diff_format.py\<close> is not among the sources. Section 3
  of the spec gives the entry kinds Add, Remove, Replace and Patch, each with a key (a
  dict key, or a position of the source sequence) and its payload; a diff is the list of
  the entries of one container, and the empty list means "no difference".
\<close>

datatype key = Idx nat | Name string

datatype entry =
    Add key val
  | Remove key
  | Replace key val
  | Patch key "entry list"

type_synonym diff = "entry list"

fun entry_key :: "entry \<Rightarrow> key" where
  "entry_key (Add k _) = k"
| "entry_key (Remove k) = k"
| "entry_key (Replace k _) = k"
| "entry_key (Patch k _) = k"

text \<open>
  The failures of the code. The two \<^verbatim>\<open>RuntimeError\<close>s of generic.py carry the spec's names:
  \<open>UnsupportedValueKind\<close> is "Can currently only diff list, dict, or str objects."
  (line 51), \<open>PredicateConflict\<close> is "Found predicate(s) for path ... pointing to dict
  entry." (line 185). \<open>UnsupportedPredicate\<close> and \<open>UnknownAlgorithm\<close> are the two
  \<^verbatim>\<open>RuntimeError\<close>s of \<^verbatim>\<open>diff_sequence\<close>. The others are Python's own exceptions.
\<close>

datatype error =
    UnsupportedValueKind
  | PredicateConflict
  | MalformedDiff
  | UnsupportedPredicate
  | UnknownAlgorithm
  | AssertionError
  | IndexError
  | KeyError
  | TypeError
  | NameError

text \<open>
  A comparison is \<^verbatim>\<open>operator.__eq__\<close> itself or some other pure predicate; the code
  tells them apart by identity (\<^verbatim>\<open>compare is not operator.__eq__\<close>).
\<close>

datatype cmp = OpEq | Pred "val \<Rightarrow> val \<Rightarrow> bool"

fun is_operator_eq :: "cmp \<Rightarrow> bool" where
  "is_operator_eq OpEq = True"
| "is_operator_eq (Pred _) = False"

fun apply_compare :: "cmp \<Rightarrow> val \<Rightarrow> val \<Rightarrow> bool" where
  "apply_compare OpEq x y = py_eq x y"
| "apply_compare (Pred f) x y = f x y"

text \<open>
  The predicate registry is a \<^verbatim>\<open>defaultdict\<close> whose factory gives the tuple
  \<^verbatim>\<open>(operator.__eq__,)\<close> (\<^verbatim>\<open>default_predicates\<close>, line 27). Reading a missing key of
  a \<^verbatim>\<open>defaultdict\<close> with \<^verbatim>\<open>predicates[path]\<close> stores the default under that key, so
  the registry is state that the differ threads through its calls; \<^verbatim>\<open>path in predicates\<close>
  reads it without storing.
\<close>

type_synonym registry = "string \<rightharpoonup> cmp list"

definition default_predicates :: registry where
  "default_predicates = Map.empty"

definition getitem_predicates :: "registry \<Rightarrow> string \<Rightarrow> cmp list \<times> registry" where
  "getitem_predicates P path =
     (case P path of
        Some compares \<Rightarrow> (compares, P)
      | None \<Rightarrow> ([OpEq], P(path \<mapsto> [OpEq])))"

type_synonym differ = "val \<Rightarrow> val \<Rightarrow> string \<Rightarrow> registry \<Rightarrow> error + (diff \<times> registry)"

text \<open>
  What the differ takes from outside: the registry of override differs
  (\<^verbatim>\<open>differs.get(subpath, diff)\<close>; \<^verbatim>\<open>default_differs()\<close> has no entry), and the two
  functions of \<^verbatim>\<open>nbdime/diffing/snakes.py\<close> that \<^verbatim>\<open>diff_sequence_multilevel\<close> calls.
  snakes.py is not among the sources, so its two functions are parameters.
\<close>

record env =
  differs :: "string \<rightharpoonup> differ"
  compute_snakes_multilevel :: "val list \<Rightarrow> val list \<Rightarrow> cmp list \<Rightarrow> (nat \<times> nat \<times> nat) list"
  compute_diff_from_snakes ::
    "val list \<Rightarrow> val list \<Rightarrow> (nat \<times> nat \<times> nat) list \<Rightarrow> string \<Rightarrow> registry \<Rightarrow> error + (diff \<times> registry)"

definition default_differs :: "string \<rightharpoonup> differ" where
  "default_differs = Map.empty"

section \<open>The diff format helpers\<close>

text \<open>
  Modelled from the spec: \<^verbatim>\<open>count_consumed_symbols\<close> of diff_format.py. Section 3: each
  entry of a sequence diff carries how many source and target elements it consumes, "1
  for Add only affects target, 1 for Remove only affects source, etc."; Replace and Patch
  stand for one element on each side.
\<close>

fun count_consumed_symbols :: "entry \<Rightarrow> nat \<times> nat" where
  "count_consumed_symbols (Add _ _) = (0, 1)"
| "count_consumed_symbols (Remove _) = (1, 0)"
| "count_consumed_symbols (Replace _ _) = (1, 1)"
| "count_consumed_symbols (Patch _ _) = (1, 1)"

text \<open>
  Modelled from the spec: \<^verbatim>\<open>validate_diff\<close> of diff_format.py. Section 4.1 lists four
  checks: (a) the keys of a sequence diff are positions in non-decreasing order (the
  validator is called with the diff alone, so the upper bound of the source is not in its
  reach; a position is a natural number); (b) no two entries of the same kind stand at
  the same position, several Add entries at one position being the combined insertion of
  a run of elements; (c) a Patch carries a non-empty diff; (d) a mapping diff has one
  entry per key at most.
\<close>

fun is_idx :: "key \<Rightarrow> bool" where
  "is_idx (Idx _) = True"
| "is_idx (Name _) = False"

fun is_add :: "entry \<Rightarrow> bool" where
  "is_add (Add _ _) = True"
| "is_add _ = False"

fun is_remove :: "entry \<Rightarrow> bool" where
  "is_remove (Remove _) = True"
| "is_remove _ = False"

fun is_replace :: "entry \<Rightarrow> bool" where
  "is_replace (Replace _ _) = True"
| "is_replace _ = False"

fun is_patch :: "entry \<Rightarrow> bool" where
  "is_patch (Patch _ _) = True"
| "is_patch _ = False"

fun patch_nonempty :: "entry \<Rightarrow> bool" where
  "patch_nonempty (Patch _ d) = (d \<noteq> [])"
| "patch_nonempty _ = True"

fun key_index :: "key \<Rightarrow> nat" where
  "key_index (Idx n) = n"
| "key_index (Name _) = 0"

definition valid_sequence_diff :: "diff \<Rightarrow> bool" where
  "valid_sequence_diff d \<longleftrightarrow>
     list_all (\<lambda>e. is_idx (entry_key e)) d \<and>
     sorted (map (\<lambda>e. key_index (entry_key e)) d) \<and>
     distinct (map entry_key (filter is_remove d)) \<and>
     distinct (map entry_key (filter is_replace d)) \<and>
     distinct (map entry_key (filter is_patch d)) \<and>
     list_all patch_nonempty d"

definition valid_mapping_diff :: "diff \<Rightarrow> bool" where
  "valid_mapping_diff d \<longleftrightarrow>
     list_all (\<lambda>e. \<not> is_idx (entry_key e)) d \<and>
     distinct (map entry_key d) \<and>
     list_all patch_nonempty d"

definition validate_diff :: "diff \<Rightarrow> error + diff" where
  "validate_diff d =
     (if valid_sequence_diff d \<or> valid_mapping_diff d then Inr d else Inl MalformedDiff)"

text \<open>
  Modelled from the spec: the builders of diff_format.py. Section 4.1: a builder
  accumulates the entries of one container in the order of the calls, and
  \<^verbatim>\<open>validated()\<close> "returns an empty result when no entries were added; otherwise returns
  the entry list after passing it to the validator". A builder is the list of its
  entries; \<^verbatim>\<open>di.patch(k, d)\<close>, \<^verbatim>\<open>di.remove(k)\<close>, \<^verbatim>\<open>di.replace(k, v)\<close>,
  \<^verbatim>\<open>di.add(k, v)\<close> and \<^verbatim>\<open>di.append(e)\<close> put one entry at its end.
\<close>

definition validated :: "diff \<Rightarrow> error + diff" where
  "validated di = (if di = [] then Inr [] else validate_diff di)"

section \<open>The shallow sequence aligners\<close>

text \<open>
  Modelled from the spec: \<^verbatim>\<open>diff_sequence_bruteforce\<close> of seq_bruteforce.py. Section
  4.2, "Exhaustive": a minimum edit script of Add and Remove entries, found from the
  lengths of the longest common subsequences of all pairs of suffixes, ties broken in
  favour of a match for the earlier source element. An Add carries the source position
  in front of which the element goes.
\<close>

fun llcs :: "(val \<Rightarrow> val \<Rightarrow> bool) \<Rightarrow> val list \<Rightarrow> val list \<Rightarrow> nat" where
  "llcs c [] ys = 0"
| "llcs c (x # xs) [] = 0"
| "llcs c (x # xs) (y # ys) =
     (if c x y then Suc (llcs c xs ys) else max (llcs c xs (y # ys)) (llcs c (x # xs) ys))"

fun lcs_script :: "(val \<Rightarrow> val \<Rightarrow> bool) \<Rightarrow> nat \<Rightarrow> val list \<Rightarrow> val list \<Rightarrow> diff" where
  "lcs_script c x [] ys = map (Add (Idx x)) ys"
| "lcs_script c x (a # as) [] = Remove (Idx x) # lcs_script c (Suc x) as []"
| "lcs_script c x (a # as) (b # bs) =
     (if c a b then lcs_script c (Suc x) as bs
      else if llcs c as (b # bs) \<le> llcs c (a # as) bs
        then Add (Idx x) b # lcs_script c x (a # as) bs
        else Remove (Idx x) # lcs_script c (Suc x) as (b # bs))"

definition diff_sequence_bruteforce :: "val list \<Rightarrow> val list \<Rightarrow> cmp \<Rightarrow> diff" where
  "diff_sequence_bruteforce a b compare = lcs_script (apply_compare compare) 0 a b"

text \<open>
  Modelled from the spec: \<^verbatim>\<open>diff_sequence_myers\<close> of seq_myers.py. Section 4.2, "Classic
  optimal (LCS-based)": an edit script with the minimum number of non-matched
  operations. The spec gives it the contract of the exhaustive strategy and no tie-break
  of its own.
\<close>

definition diff_sequence_myers :: "val list \<Rightarrow> val list \<Rightarrow> cmp \<Rightarrow> diff" where
  "diff_sequence_myers a b compare = lcs_script (apply_compare compare) 0 a b"

text \<open>
  Modelled from the spec: \<^verbatim>\<open>diff_sequence_difflib\<close> of seq_difflib.py. Section 4.2,
  "Library-assisted": plain equality only, a longest-matching-block algorithm. The
  longest block of equal elements is kept (the first one in the source, then in the
  target, among the longest), and the parts to its left and to its right are treated the
  same way; where no element matches, the source part is removed and the target part
  added.
\<close>

fun common_prefix :: "val list \<Rightarrow> val list \<Rightarrow> nat" where
  "common_prefix (x # xs) (y # ys) = (if py_eq x y then Suc (common_prefix xs ys) else 0)"
| "common_prefix _ _ = 0"

definition block_candidates :: "val list \<Rightarrow> val list \<Rightarrow> (nat \<times> nat \<times> nat) list" where
  "block_candidates a b =
     concat (map (\<lambda>i. map (\<lambda>j. (i, j, common_prefix (drop i a) (drop j b))) [0..<length b])
       [0..<length a])"

fun better_block :: "nat \<times> nat \<times> nat \<Rightarrow> nat \<times> nat \<times> nat \<Rightarrow> nat \<times> nat \<times> nat" where
  "better_block (i, j, k) (bi, bj, bk) = (if bk < k then (i, j, k) else (bi, bj, bk))"

definition find_longest_match :: "val list \<Rightarrow> val list \<Rightarrow> nat \<times> nat \<times> nat" where
  "find_longest_match a b = fold better_block (block_candidates a b) (0, 0, 0)"

lemma fold_better_block_cases:
  "fold better_block cs best = best \<or> fold better_block cs best \<in> set cs"
proof (induction cs arbitrary: best)
  case Nil
  show ?case by simp
next
  case (Cons c cs)
  obtain i j k where c: "c = (i, j, k)" by (cases c) auto
  obtain bi bj bk where b: "best = (bi, bj, bk)" by (cases best) auto
  from Cons.IH [of "better_block c best"] show ?case
    by (auto simp: c b split: if_splits)
qed

lemma find_longest_match_bounds:
  assumes "find_longest_match a b = (i, j, k)" and "0 < k"
  shows "i < length a \<and> j < length b"
proof -
  from fold_better_block_cases [of "block_candidates a b" "(0, 0, 0)"] assms
  have "(i, j, k) \<in> set (block_candidates a b)"
    by (auto simp: find_longest_match_def)
  then show ?thesis by (auto simp: block_candidates_def)
qed

function block_script :: "nat \<Rightarrow> val list \<Rightarrow> val list \<Rightarrow> diff" where
  "block_script x a b =
     (case find_longest_match a b of
        (i, j, k) \<Rightarrow>
          if k = 0
            then map (\<lambda>n. Remove (Idx (x + n))) [0..<length a] @ map (Add (Idx (x + length a))) b
            else block_script x (take i a) (take j b) @
                 block_script (x + i + k) (drop (i + k) a) (drop (j + k) b))"
  by pat_completeness auto
termination
proof (relation "measure (\<lambda>(x, a, b). length a + length b)")
  show "wf (measure (\<lambda>(x, a, b). length a + length b))" by simp
next
  fix x :: nat and a b :: "val list" and p i q j k
  assume "(i, q) = find_longest_match a b" and "(j, k) = q" and "k \<noteq> 0"
  then have "find_longest_match a b = (i, j, k)" and "0 < k" by auto
  from find_longest_match_bounds [OF this]
  show "((x, take i a, take j b), (x, a, b)) \<in> measure (\<lambda>(x, a, b). length a + length b)"
    by simp
next
  fix x :: nat and a b :: "val list" and p i q j k
  assume "(i, q) = find_longest_match a b" and "(j, k) = q" and "k \<noteq> 0"
  then have "find_longest_match a b = (i, j, k)" and "0 < k" by auto
  from find_longest_match_bounds [OF this] this(2)
  have "length a - (i + k) < length a" and "length b - (j + k) \<le> length b"
    by arith+
  then show "((x + i + k, drop (i + k) a, drop (j + k) b), (x, a, b))
          \<in> measure (\<lambda>(x, a, b). length a + length b)"
    by simp
qed

declare block_script.simps [simp del]

definition diff_sequence_difflib :: "val list \<Rightarrow> val list \<Rightarrow> diff" where
  "diff_sequence_difflib a b = block_script 0 a b"

text \<open>
  \<^verbatim>\<open>diff_sequence_algorithm\<close> and \<^verbatim>\<open>diff_sequence\<close> (sequences.py, lines 20 to 39). The
  wrapper reads the module's global; \<open>diff_sequence_using\<close> is its body for a given
  value of the global.
\<close>

definition diff_sequence_algorithm :: string where
  "diff_sequence_algorithm = ''bruteforce''"

definition diff_sequence_using :: "string \<Rightarrow> val list \<Rightarrow> val list \<Rightarrow> cmp \<Rightarrow> error + diff" where
  "diff_sequence_using algorithm a b compare =
     (if algorithm = ''difflib'' then
        (if \<not> is_operator_eq compare then Inl UnsupportedPredicate else Inr (diff_sequence_difflib a b))
      else if algorithm = ''bruteforce'' then Inr (diff_sequence_bruteforce a b compare)
      else if algorithm = ''myers'' then Inr (diff_sequence_myers a b compare)
      else Inl UnknownAlgorithm)"

definition diff_sequence :: "val list \<Rightarrow> val list \<Rightarrow> cmp \<Rightarrow> error + diff" where
  "diff_sequence a b compare = diff_sequence_using diff_sequence_algorithm a b compare"

text \<open>
  \<^verbatim>\<open>diff_strings\<close> (sequences.py, line 42): the character diff of two strings; a
  character of a Python string is a string of length one.
\<close>

definition characters :: "string \<Rightarrow> val list" where
  "characters s = map (\<lambda>c. VStr [c]) s"

definition diff_strings :: "string \<Rightarrow> string \<Rightarrow> diff" where
  "diff_strings a b = diff_sequence_difflib (characters a) (characters b)"

section \<open>The structural differ\<close>

text \<open>
  The inner loop of \<^verbatim>\<open>diff_lists\<close> (generic.py, lines 121 to 127),
  \<^verbatim>\<open>for k in range(n)\<close> over \<^verbatim>\<open>a[i + k]\<close> and \<^verbatim>\<open>b[j + k]\<close>: the function takes the
  two positions \<open>i + k\<close> and \<open>j + k\<close> and the number of rounds left. An index past the
  end of a Python list raises \<^verbatim>\<open>IndexError\<close>. The registry comes back from every call
  of the differ, since the call may have stored defaults in it.
\<close>

fun items_loop ::
  "differ \<Rightarrow> string \<Rightarrow> val list \<Rightarrow> val list \<Rightarrow> nat \<Rightarrow> nat \<Rightarrow> nat \<Rightarrow> diff \<Rightarrow> registry
     \<Rightarrow> error + (diff \<times> registry)" where
  "items_loop diffit subpath a b i j 0 di P = Inr (di, P)"
| "items_loop diffit subpath a b i j (Suc n) di P =
     (if length a \<le> i then Inl IndexError
      else if length b \<le> j then Inl IndexError
      else if is_atomic (a ! i) then items_loop diffit subpath a b (Suc i) (Suc j) n di P
      else
        (case diffit (a ! i) (b ! j) subpath P of
           Inl err \<Rightarrow> Inl err
         | Inr (cd, P') \<Rightarrow>
             items_loop diffit subpath a b (Suc i) (Suc j) n
               (if cd \<noteq> [] then di @ [Patch (Idx i) cd] else di) P'))"

text \<open>
  The outer loop (lines 103 to 136) over the entries of the shallow diff, and its last
  round \<^verbatim>\<open>ie == M\<close> with the two assertions of lines 117 and 118. It returns the two
  cursors with the builder. The key of an entry of a sequence diff is a position; with
  a dict key, \<^verbatim>\<open>index - i\<close> is a \<^verbatim>\<open>TypeError\<close>.
\<close>

fun entries_loop ::
  "differ \<Rightarrow> string \<Rightarrow> val list \<Rightarrow> val list \<Rightarrow> diff \<Rightarrow> nat \<Rightarrow> nat \<Rightarrow> diff \<Rightarrow> registry
     \<Rightarrow> error + (nat \<times> nat \<times> diff \<times> registry)" where
  "entries_loop diffit subpath a b [] i j di P =
     (let n = int (length a) - int i in
      if n < 0 then Inl AssertionError
      else if int (length b) - int j \<noteq> n then Inl AssertionError
      else
        (case items_loop diffit subpath a b i j (nat n) di P of
           Inl err \<Rightarrow> Inl err
         | Inr (di', P') \<Rightarrow> Inr (i + nat n, j + nat n, di', P')))"
| "entries_loop diffit subpath a b (e # es) i j di P =
     (case entry_key e of
        Name _ \<Rightarrow> Inl TypeError
      | Idx index \<Rightarrow>
          (let n = nat (max 0 (int index - int i));
               (askip, bskip) = count_consumed_symbols e in
           case items_loop diffit subpath a b i j n di P of
             Inl err \<Rightarrow> Inl err
           | Inr (di', P') \<Rightarrow>
               entries_loop diffit subpath a b es (i + n + askip) (j + n + bskip) (di' @ [e]) P'))"

text \<open>\<^verbatim>\<open>diff_sequence_multilevel\<close> (lines 59 to 72).\<close>

definition diff_sequence_multilevel ::
  "env \<Rightarrow> val list \<Rightarrow> val list \<Rightarrow> string \<Rightarrow> registry \<Rightarrow> error + (diff \<times> registry)" where
  "diff_sequence_multilevel E a b path P =
     (case getitem_predicates P path of
        (compares, P1) \<Rightarrow>
          compute_diff_from_snakes E a b (compute_snakes_multilevel E a b compares) path P1)"

text \<open>
  \<^verbatim>\<open>diff_lists\<close> (lines 75 to 142), with the differ it falls back on (the global
  \<^verbatim>\<open>diff\<close>) as an argument, so that \<open>diff\<close> below can be defined by recursion through
  it. \<^verbatim>\<open>compares[0]\<close> of an empty tuple raises \<^verbatim>\<open>IndexError\<close>.
\<close>

definition diff_lists_with ::
  "env \<Rightarrow> differ \<Rightarrow> val list \<Rightarrow> val list \<Rightarrow> string \<Rightarrow> registry \<Rightarrow> diff option
     \<Rightarrow> error + (diff \<times> registry)" where
  "diff_lists_with E recurse a b path P shallow_diff =
     (case getitem_predicates P path of
        (compares, P1) \<Rightarrow>
          if 1 < length compares then
            (if shallow_diff \<noteq> None then Inl AssertionError
             else diff_sequence_multilevel E a b path P1)
          else
            (case (case shallow_diff of
                     None \<Rightarrow>
                       (case compares of [] \<Rightarrow> Inl IndexError | c # _ \<Rightarrow> diff_sequence a b c)
                   | Some sd \<Rightarrow> Inr sd) of
               Inl err \<Rightarrow> Inl err
             | Inr sd \<Rightarrow>
                 (let subpath = path @ ''/'' @ ''*'';
                      diffit = (case differs E subpath of Some d \<Rightarrow> d | None \<Rightarrow> recurse) in
                  case entries_loop diffit subpath a b sd 0 0 [] P1 of
                    Inl err \<Rightarrow> Inl err
                  | Inr (i, j, di, P2) \<Rightarrow>
                      if i \<noteq> length a then Inl AssertionError
                      else if j \<noteq> length b then Inl AssertionError
                      else (case validated di of Inl err \<Rightarrow> Inl err | Inr d \<Rightarrow> Inr (d, P2)))))"

text \<open>
  \<^verbatim>\<open>diff_dicts\<close> (lines 145 to 192). \<open>dict_keys\<close> is \<^verbatim>\<open>set(a.keys())\<close>, each key once;
  \<^verbatim>\<open>sorted\<close> is \<open>sort\<close> on strings in the order of their characters. The loop over the
  keys of both dicts may fail and reads the registry; the two other loops only put their
  entries into the builder.
\<close>

definition dict_keys :: "(string \<times> val) list \<Rightarrow> string list" where
  "dict_keys a = remdups (map fst a)"

fun common_loop ::
  "env \<Rightarrow> differ \<Rightarrow> (string \<times> val) list \<Rightarrow> (string \<times> val) list \<Rightarrow> string \<Rightarrow> string list
     \<Rightarrow> diff \<Rightarrow> registry \<Rightarrow> error + (diff \<times> registry)" where
  "common_loop E recurse a b path [] di P = Inr (di, P)"
| "common_loop E recurse a b path (key # keys) di P =
     (case map_of a key of
        None \<Rightarrow> Inl KeyError
      | Some avalue \<Rightarrow>
          (case map_of b key of
             None \<Rightarrow> Inl KeyError
           | Some bvalue \<Rightarrow>
               if type_of avalue = type_of bvalue \<and> \<not> is_atomic avalue then
                 (let subpath = path @ ''/'' @ key;
                      diffit = (case differs E subpath of Some d \<Rightarrow> d | None \<Rightarrow> recurse) in
                  case diffit avalue bvalue subpath P of
                    Inl err \<Rightarrow> Inl err
                  | Inr (dd, P') \<Rightarrow>
                      common_loop E recurse a b path keys
                        (if dd \<noteq> [] then di @ [Patch (Name key) dd] else di) P')
               else if path \<in> dom P then Inl PredicateConflict
               else
                 common_loop E recurse a b path keys
                   (if \<not> py_eq avalue bvalue then di @ [Replace (Name key) bvalue] else di) P))"

fun add_loop :: "(string \<times> val) list \<Rightarrow> string list \<Rightarrow> diff \<Rightarrow> error + diff" where
  "add_loop b [] di = Inr di"
| "add_loop b (key # keys) di =
     (case map_of b key of
        None \<Rightarrow> Inl KeyError
      | Some bvalue \<Rightarrow> add_loop b keys (di @ [Add (Name key) bvalue]))"

definition diff_dicts_with ::
  "env \<Rightarrow> differ \<Rightarrow> (string \<times> val) list \<Rightarrow> (string \<times> val) list \<Rightarrow> string \<Rightarrow> registry
     \<Rightarrow> error + (diff \<times> registry)" where
  "diff_dicts_with E recurse a b path P =
     (let akeys = dict_keys a; bkeys = dict_keys b;
          di = map (\<lambda>key. Remove (Name key)) (sort (filter (\<lambda>k. k \<notin> set bkeys) akeys)) in
      case common_loop E recurse a b path (sort (filter (\<lambda>k. k \<in> set bkeys) akeys)) di P of
        Inl err \<Rightarrow> Inl err
      | Inr (di', P') \<Rightarrow>
          (case add_loop b (sort (filter (\<lambda>k. k \<notin> set akeys) bkeys)) di' of
             Inl err \<Rightarrow> Inl err
           | Inr di'' \<Rightarrow> (case validated di'' of Inl err \<Rightarrow> Inl err | Inr d \<Rightarrow> Inr (d, P'))))"

text \<open>
  The loops call the differ on elements of \<open>a\<close> only; the definition of \<open>diff\<close> needs
  this to see that its recursion goes down the document.
\<close>

lemma items_loop_cong [fundef_cong]:
  assumes "\<And>x y p Q. x \<in> set a \<Longrightarrow> f x y p Q = g x y p Q"
    and "a = a'" "b = b'" "sp = sp'" "i = i'" "j = j'" "n = n'" "di = di'" "P = P'"
  shows "items_loop f sp a b i j n di P = items_loop g sp' a' b' i' j' n' di' P'"
  unfolding assms(2-)[symmetric] using assms(1)
  by (induction n arbitrary: i j di P) (auto split: sum.splits)

lemma entries_loop_cong [fundef_cong]:
  assumes "\<And>x y p Q. x \<in> set a \<Longrightarrow> f x y p Q = g x y p Q"
    and "a = a'" "b = b'" "sp = sp'" "sd = sd'" "i = i'" "j = j'" "di = di'" "P = P'"
  shows "entries_loop f sp a b sd i j di P = entries_loop g sp' a' b' sd' i' j' di' P'"
proof -
  have "items_loop f sp a b i j n di P = items_loop g sp a b i j n di P" for i j n di P
    using assms(1) by (rule items_loop_cong) simp_all
  then have "entries_loop f sp a b sd i j di P = entries_loop g sp a b sd i j di P"
    by (induction sd arbitrary: i j di P)
      (auto split: sum.splits key.splits prod.splits simp: Let_def)
  then show ?thesis using assms(2-) by simp
qed

lemma diff_lists_with_cong [fundef_cong]:
  assumes "\<And>x y p Q. x \<in> set a \<Longrightarrow> f x y p Q = g x y p Q"
    and "E = E'" "a = a'" "b = b'" "path = path'" "P = P'" "sd = sd'"
  shows "diff_lists_with E f a b path P sd = diff_lists_with E' g a' b' path' P' sd'"
proof -
  have "entries_loop (case differs E sp of Some d \<Rightarrow> d | None \<Rightarrow> f) sp a b s i j di Q =
        entries_loop (case differs E sp of Some d \<Rightarrow> d | None \<Rightarrow> g) sp a b s i j di Q"
    for sp s i j di Q
    by (rule entries_loop_cong) (use assms(1) in \<open>auto split: option.splits\<close>)
  then show ?thesis
    unfolding assms(2-)[symmetric] diff_lists_with_def
    by (auto simp: Let_def split: prod.splits sum.splits option.splits list.splits)
qed

lemma common_loop_cong [fundef_cong]:
  assumes "\<And>x y p Q. x \<in> snd ` set a \<Longrightarrow> f x y p Q = g x y p Q"
    and "E = E'" "a = a'" "b = b'" "path = path'" "keys = keys'" "di = di'" "P = P'"
  shows "common_loop E f a b path keys di P = common_loop E' g a' b' path' keys' di' P'"
proof -
  have "common_loop E f a b path keys di P = common_loop E g a b path keys di P"
  proof (induction keys arbitrary: di P)
    case Nil
    show ?case by simp
  next
    case (Cons key keys)
    have "f x y p Q = g x y p Q" if "map_of a key = Some x" for x y p Q
      using assms(1) map_of_SomeD [OF that] by force
    with Cons show ?case
      by (auto split: option.splits sum.splits simp: Let_def)
  qed
  then show ?thesis using assms(2-) by simp
qed

lemma diff_dicts_with_cong [fundef_cong]:
  assumes "\<And>x y p Q. x \<in> snd ` set a \<Longrightarrow> f x y p Q = g x y p Q"
    and "E = E'" "a = a'" "b = b'" "path = path'" "P = P'"
  shows "diff_dicts_with E f a b path P = diff_dicts_with E' g a' b' path' P'"
proof -
  have "common_loop E f a b path ks di Q = common_loop E g a b path ks di Q" for ks di Q
    using assms(1) by (rule common_loop_cong) simp_all
  then show ?thesis
    unfolding assms(2-)[symmetric] diff_dicts_with_def
    by (auto simp: Let_def split: prod.splits sum.splits)
qed

text \<open>
  \<^verbatim>\<open>diff\<close> (lines 35 to 56): the dispatch on the kinds of both values, then
  \<^verbatim>\<open>validate_diff(d)\<close> on the result.
\<close>

definition validate_result :: "error + (diff \<times> registry) \<Rightarrow> error + (diff \<times> registry)" where
  "validate_result r =
     (case r of
        Inl err \<Rightarrow> Inl err
      | Inr (d, P) \<Rightarrow> (case validate_diff d of Inl err \<Rightarrow> Inl err | Inr _ \<Rightarrow> Inr (d, P)))"

fun diff :: "env \<Rightarrow> val \<Rightarrow> val \<Rightarrow> string \<Rightarrow> registry \<Rightarrow> error + (diff \<times> registry)" where
  "diff E (VList a) (VList b) path P =
     validate_result (diff_lists_with E (\<lambda>x y p Q. diff E x y p Q) a b path P None)"
| "diff E (VDict a) (VDict b) path P =
     validate_result (diff_dicts_with E (\<lambda>x y p Q. diff E x y p Q) a b path P)"
| "diff E (VStr a) (VStr b) path P = validate_result (Inr (diff_strings a b, P))"
| "diff E _ _ path P = Inl UnsupportedValueKind"

definition diff_lists ::
  "env \<Rightarrow> val list \<Rightarrow> val list \<Rightarrow> string \<Rightarrow> registry \<Rightarrow> diff option \<Rightarrow> error + (diff \<times> registry)" where
  "diff_lists E a b path P shallow_diff = diff_lists_with E (diff E) a b path P shallow_diff"

definition diff_dicts ::
  "env \<Rightarrow> (string \<times> val) list \<Rightarrow> (string \<times> val) list \<Rightarrow> string \<Rightarrow> registry
     \<Rightarrow> error + (diff \<times> registry)" where
  "diff_dicts E a b path P = diff_dicts_with E (diff E) a b path P"

text \<open>
  Both values are lists, both are dicts, or both are strings: the three first branches of
  \<^verbatim>\<open>diff\<close>.
\<close>

fun diffable :: "val \<Rightarrow> val \<Rightarrow> bool" where
  "diffable (VList _) (VList _) = True"
| "diffable (VDict _) (VDict _) = True"
| "diffable (VStr _) (VStr _) = True"
| "diffable _ _ = False"

section \<open>The notebook entry points\<close>

text \<open>
  \<^verbatim>\<open>diff_notebooks\<close> and \<^verbatim>\<open>diff_single_cells\<close> (notebooks.py, lines 142 and 161) call
  \<^verbatim>\<open>diff_dicts(a, b, subdiffs=...)\<close>. Python binds the arguments of a call to the
  parameters of the function before it runs the body: the positional arguments go to the
  first parameters, each keyword has to name a parameter that is still free, and every
  parameter without a default has to be bound; otherwise the call raises
  \<^verbatim>\<open>TypeError\<close>.
\<close>

record signature =
  params :: "string list"
  required :: nat

definition accepts_call :: "signature \<Rightarrow> nat \<Rightarrow> string list \<Rightarrow> bool" where
  "accepts_call sg npos keywords \<longleftrightarrow>
     npos \<le> length (params sg) \<and>
     distinct keywords \<and>
     list_all (\<lambda>k. k \<in> set (drop npos (params sg))) keywords \<and>
     list_all (\<lambda>p. p \<in> set keywords) (drop npos (take (required sg) (params sg)))"

definition diff_dicts_signature :: signature where
  "diff_dicts_signature =
     \<lparr>params = [''a'', ''b'', ''path'', ''predicates'', ''differs''], required = 2\<rparr>"

definition diff_lists_signature :: signature where
  "diff_lists_signature =
     \<lparr>params = [''a'', ''b'', ''path'', ''predicates'', ''differs'', ''shallow_diff''],
      required = 2\<rparr>"

text \<open>
  The two entry points: the call of \<^verbatim>\<open>diff_dicts\<close> with two positional arguments and
  the keyword \<^verbatim>\<open>subdiffs\<close>. Were the call accepted, \<^verbatim>\<open>diff_dicts\<close> would run with its
  defaults, its assertion failing on a value that is not a dict.
\<close>

definition call_diff_dicts ::
  "env \<Rightarrow> string list \<Rightarrow> val \<Rightarrow> val \<Rightarrow> error + (diff \<times> registry)" where
  "call_diff_dicts E keywords a b =
     (if \<not> accepts_call diff_dicts_signature 2 keywords then Inl TypeError
      else
        (case (a, b) of
           (VDict x, VDict y) \<Rightarrow> diff_dicts E x y [] default_predicates
         | _ \<Rightarrow> Inl AssertionError))"

definition diff_single_cells :: "env \<Rightarrow> val \<Rightarrow> val \<Rightarrow> error + (diff \<times> registry)" where
  "diff_single_cells E a b = call_diff_dicts E [''subdiffs''] a b"

definition diff_notebooks :: "env \<Rightarrow> val \<Rightarrow> val \<Rightarrow> error + (diff \<times> registry)" where
  "diff_notebooks E nba nbb = call_diff_dicts E [''subdiffs''] nba nbb"

section \<open>Equality and the aligners on equal sequences\<close>

lemma py_eq_refl: "py_eq x x"
proof (induction x)
  case (VList xs)
  then show ?case by (simp add: list_all2_same)
next
  case (VDict kvs)
  have "map_of kvs k \<noteq> Some v \<or> (case map_of kvs k of Some w \<Rightarrow> py_eq v w | None \<Rightarrow> False)"
    if "(k, v) \<in> set kvs" for k v
  proof (cases "map_of kvs k = Some v")
    case True
    from VDict [of "(k, v)" v] that have "py_eq v v" by simp
    with True show ?thesis by simp
  qed simp
  then show ?case by (auto simp: list_all_iff)
qed simp_all

lemma py_eq_diffable: "py_eq x y \<Longrightarrow> \<not> is_atomic x \<Longrightarrow> diffable x y"
  by (cases x; cases y) simp_all

lemma lcs_script_same: "(\<And>e. e \<in> set a \<Longrightarrow> c e e) \<Longrightarrow> lcs_script c x a a = []"
  by (induction a arbitrary: x) simp_all

lemma common_prefix_le: "common_prefix xs ys \<le> length xs"
  by (induction xs ys rule: common_prefix.induct) simp_all

lemma common_prefix_same: "common_prefix xs xs = length xs"
  by (induction xs) (simp_all add: py_eq_refl)

lemma fold_better_block_keep:
  "(\<And>i j k. (i, j, k) \<in> set cs \<Longrightarrow> k \<le> bk) \<Longrightarrow> fold better_block cs (bi, bj, bk) = (bi, bj, bk)"
proof (induction cs)
  case Nil
  show ?case by simp
next
  case (Cons c cs)
  obtain i j k where c: "c = (i, j, k)" by (cases c) auto
  with Cons.prems [of i j k] have "k \<le> bk" by simp
  moreover have "fold better_block cs (bi, bj, bk) = (bi, bj, bk)"
    by (rule Cons.IH) (use Cons.prems in auto)
  ultimately show ?case by (simp add: c)
qed

lemma block_candidates_le: "(i, j, k) \<in> set (block_candidates a b) \<Longrightarrow> k \<le> length a"
  using common_prefix_le [of "drop i a" "drop j b"]
  by (auto simp: block_candidates_def)

lemma find_longest_match_same:
  assumes "s \<noteq> []"
  shows "find_longest_match s s = (0, 0, length s)"
proof -
  from assms have len: "0 < length s" by simp
  then have upt: "[0..<length s] = 0 # [1..<length s]" by (simp add: upt_conv_Cons)
  have "block_candidates s s = (0, 0, length s) # tl (block_candidates s s)"
    unfolding block_candidates_def by (subst (1 2) upt) (simp add: common_prefix_same upt)
  then obtain rest where cs: "block_candidates s s = (0, 0, length s) # rest"
    and rest: "set rest \<subseteq> set (block_candidates s s)"
    by (metis list.set_sel(2) list.distinct(1) subsetI)
  have "fold better_block rest (0, 0, length s) = (0, 0, length s)"
    by (rule fold_better_block_keep) (use rest block_candidates_le in blast)
  then show ?thesis using len by (simp add: find_longest_match_def cs)
qed

lemma find_longest_match_Nil [simp]: "find_longest_match [] b = (0, 0, 0)"
  by (simp add: find_longest_match_def block_candidates_def)

lemma block_script_Nil: "block_script x [] [] = []"
  by (subst block_script.simps) simp

lemma block_script_same: "block_script x s s = []"
proof (cases "s = []")
  case True
  then show ?thesis by (simp add: block_script_Nil)
next
  case False
  show ?thesis
    by (subst block_script.simps) (simp add: find_longest_match_same [OF False] block_script_Nil False)
qed

lemma diff_strings_same: "diff_strings s s = []"
  by (simp add: diff_strings_def diff_sequence_difflib_def block_script_same)

section \<open>The registry through a run\<close>

text \<open>
  A run of the differ only adds to the registry, and what it adds is the default tuple:
  \<open>grows P Q\<close>. \<open>single_level\<close> registries hold one predicate per path, so that
  \<^verbatim>\<open>diff_lists\<close> never takes the multilevel branch; \<open>only_eq\<close> registries are those a
  run reaches from \<^verbatim>\<open>default_predicates()\<close>. \<open>post bad P r\<close> says of a result \<open>r\<close> that
  its error is not a \<open>bad\<close> one and that its registry has grown from \<open>P\<close>.
  \<open>walkable c a b sd i j\<close> says that the loop of \<^verbatim>\<open>diff_lists\<close> can walk the shallow
  diff \<open>sd\<close> from the cursors \<open>i\<close> and \<open>j\<close>: every key is a position at or after the
  cursor and inside \<open>a\<close>, the elements in between are paired under \<open>c\<close>, and both
  sequences end together.
\<close>

definition grows :: "registry \<Rightarrow> registry \<Rightarrow> bool" where
  "grows P Q \<longleftrightarrow> (\<forall>p. Q p = P p \<or> (P p = None \<and> Q p = Some [OpEq]))"

definition single_level :: "registry \<Rightarrow> bool" where
  "single_level P \<longleftrightarrow> (\<forall>p cs. P p = Some cs \<longrightarrow> length cs = 1)"

definition only_eq :: "registry \<Rightarrow> bool" where
  "only_eq P \<longleftrightarrow> (\<forall>p cs. P p = Some cs \<longrightarrow> cs = [OpEq])"

definition post :: "(error \<Rightarrow> bool) \<Rightarrow> registry \<Rightarrow> error + ('x \<times> registry) \<Rightarrow> bool" where
  "post bad P r = (case r of Inl err \<Rightarrow> \<not> bad err | Inr (x, Q) \<Rightarrow> grows P Q)"

fun walkable :: "(val \<Rightarrow> val \<Rightarrow> bool) \<Rightarrow> val list \<Rightarrow> val list \<Rightarrow> diff \<Rightarrow> nat \<Rightarrow> nat \<Rightarrow> bool" where
  "walkable c a b [] i j \<longleftrightarrow>
     i \<le> length a \<and> j \<le> length b \<and> length b - j = length a - i \<and>
     (\<forall>k < length a - i. c (a ! (i + k)) (b ! (j + k)))"
| "walkable c a b (e # es) i j \<longleftrightarrow>
     (case entry_key e of
        Name _ \<Rightarrow> False
      | Idx index \<Rightarrow>
          i \<le> index \<and> index \<le> length a \<and> j + (index - i) \<le> length b \<and>
          (\<forall>k < index - i. c (a ! (i + k)) (b ! (j + k))) \<and>
          walkable c a b es (index + fst (count_consumed_symbols e))
            (j + (index - i) + snd (count_consumed_symbols e)))"

lemma grows_refl [simp]: "grows P P"
  by (simp add: grows_def)

lemma grows_trans:
  assumes "grows P Q" "grows Q R"
  shows "grows P R"
  unfolding grows_def
proof
  fix p
  from assms have "Q p = P p \<or> (P p = None \<and> Q p = Some [OpEq])"
    and "R p = Q p \<or> (Q p = None \<and> R p = Some [OpEq])"
    by (simp_all add: grows_def)
  then show "R p = P p \<or> (P p = None \<and> R p = Some [OpEq])" by auto
qed

lemma grows_dom:
  assumes "grows P Q" "p \<in> dom P"
  shows "p \<in> dom Q"
proof -
  from assms(1) have "Q p = P p \<or> (P p = None \<and> Q p = Some [OpEq])"
    by (simp add: grows_def)
  with assms(2) show ?thesis by auto
qed

lemma single_level_grows:
  assumes "single_level P" "grows P Q"
  shows "single_level Q"
  unfolding single_level_def
proof (intro allI impI)
  fix p cs
  assume q: "Q p = Some cs"
  from assms(2) have "Q p = P p \<or> (P p = None \<and> Q p = Some [OpEq])"
    by (simp add: grows_def)
  with q assms(1) show "length cs = 1" by (auto simp: single_level_def)
qed

lemma only_eq_grows:
  assumes "only_eq P" "grows P Q"
  shows "only_eq Q"
  unfolding only_eq_def
proof (intro allI impI)
  fix p cs
  assume q: "Q p = Some cs"
  from assms(2) have "Q p = P p \<or> (P p = None \<and> Q p = Some [OpEq])"
    by (simp add: grows_def)
  with q assms(1) show "cs = [OpEq]" by (auto simp: only_eq_def)
qed

lemma only_eq_single_level: "only_eq P \<Longrightarrow> single_level P"
  unfolding only_eq_def single_level_def by fastforce

lemma grows_getitem: "getitem_predicates P path = (cs, Q) \<Longrightarrow> grows P Q"
  by (auto simp: getitem_predicates_def grows_def split: option.splits if_splits)

lemma getitem_dom: "getitem_predicates P path = (cs, Q) \<Longrightarrow> Q path = Some cs"
  by (auto simp: getitem_predicates_def split: option.splits)

lemma post_Inl [simp]: "post bad P (Inl err) \<longleftrightarrow> \<not> bad err"
  by (simp add: post_def)

lemma post_Inr [simp]: "post bad P (Inr (x, Q)) \<longleftrightarrow> grows P Q"
  by (simp add: post_def)

lemma post_grows: "grows P Q \<Longrightarrow> post bad Q r \<Longrightarrow> post bad P r"
  by (auto simp: post_def split: sum.splits intro: grows_trans)

lemma drop_eq_ConsD:
  assumes "drop x a = a0 # as"
  shows "x < length a \<and> a ! x = a0 \<and> drop (Suc x) a = as"
proof -
  from assms have x: "x < length a" by (cases "x < length a") auto
  from Cons_nth_drop_Suc [OF x] assms show ?thesis using x by simp
qed

lemma drop_eq_NilD: "drop x a = [] \<Longrightarrow> x \<le> length a \<Longrightarrow> x = length a"
  by simp

lemma adds_walkable:
  assumes "ys = drop y b" "x = length a" "i \<le> x" "j \<le> y" "y \<le> length b" "x - i = y - j"
    "\<forall>k < x - i. c (a ! (i + k)) (b ! (j + k))"
  shows "walkable c a b (map (Add (Idx x)) ys) i j"
  using assms
proof (induction ys arbitrary: y i j)
  case Nil
  then have "y = length b" by simp
  with Nil show ?case by simp
next
  case (Cons v vs)
  from drop_eq_ConsD [OF Cons.prems(1) [symmetric]]
  have y: "y < length b" and vs: "vs = drop (Suc y) b" by auto
  have "walkable c a b (map (Add (Idx x)) vs) x (Suc y)"
    by (rule Cons.IH [of "Suc y" x "Suc y", OF vs]) (use Cons.prems(2-) y in auto)
  moreover have "j + (x - i) = y" using Cons.prems(2-) by simp
  ultimately show ?case using Cons.prems(2-) y by simp
qed

lemma lcs_script_walkable:
  assumes "as = drop x a" "bs = drop y b" "i \<le> x" "j \<le> y" "x \<le> length a" "y \<le> length b"
    "x - i = y - j" "\<forall>k < x - i. c (a ! (i + k)) (b ! (j + k))"
  shows "walkable c a b (lcs_script c x as bs) i j"
  using assms
proof (induction c x as bs arbitrary: y i j rule: lcs_script.induct)
  case (1 c x ys)
  then have "x = length a" by simp
  show ?case unfolding lcs_script.simps
    by (rule adds_walkable [of _ y, OF "1.prems"(2) \<open>x = length a\<close>]) (use "1.prems"(3-) in auto)
next
  case (2 c x a0 as)
  from drop_eq_ConsD [OF "2.prems"(1) [symmetric]]
  have x: "x < length a" and as: "as = drop (Suc x) a" by auto
  have jy: "j + (x - i) = y" using "2.prems" by simp
  have "walkable c a b (lcs_script c (Suc x) as []) (Suc x) y"
    by (rule "2.IH" [of y "Suc x" y, OF as "2.prems"(2)]) (use "2.prems"(3-) x in auto)
  then show ?case using "2.prems"(3-) x jy by simp
next
  case (3 c x a0 as b0 bs)
  from drop_eq_ConsD [OF "3.prems"(1) [symmetric]]
  have x: "x < length a" and ax: "a ! x = a0" and as: "as = drop (Suc x) a" by auto
  from drop_eq_ConsD [OF "3.prems"(2) [symmetric]]
  have y: "y < length b" and bx: "b ! y = b0" and bs: "bs = drop (Suc y) b" by auto
  have jy: "j + (x - i) = y" using "3.prems" by simp
  show ?case
  proof (cases "c a0 b0")
    case True
    have "\<forall>k < Suc x - i. c (a ! (i + k)) (b ! (j + k))"
    proof (intro allI impI)
      fix k assume k: "k < Suc x - i"
      show "c (a ! (i + k)) (b ! (j + k))"
      proof (cases "k < x - i")
        case True
        with "3.prems"(8) show ?thesis by simp
      next
        case False
        with k "3.prems"(3-7) have "i + k = x" "j + k = y" by auto
        with True ax bx show ?thesis by simp
      qed
    qed
    then have "walkable c a b (lcs_script c (Suc x) as bs) i j"
      by (intro "3.IH"(1) [of "Suc y" i j, OF True as bs]) (use "3.prems"(3-) x y in auto)
    with True show ?thesis by simp
  next
    case False
    show ?thesis
    proof (cases "llcs c as (b0 # bs) \<le> llcs c (a0 # as) bs")
      case le: True
      have "walkable c a b (lcs_script c x (a0 # as) bs) x (Suc y)"
        by (rule "3.IH"(2) [of "Suc y" x "Suc y", OF False le "3.prems"(1) bs])
          (use "3.prems"(3-) x y in auto)
      then show ?thesis using False le "3.prems"(3-) x y jy by simp
    next
      case nle: False
      have "walkable c a b (lcs_script c (Suc x) as (b0 # bs)) (Suc x) y"
        by (rule "3.IH"(3) [of y "Suc x" y, OF False nle as "3.prems"(2)])
          (use "3.prems"(3-) x y in auto)
      then show ?thesis using False nle "3.prems"(3-) x y jy by simp
    qed
  qed
qed

lemma diff_sequence_bruteforce_walkable:
  "walkable (apply_compare c) a b (diff_sequence_bruteforce a b c) 0 0"
  unfolding diff_sequence_bruteforce_def
  by (rule lcs_script_walkable [where y = 0]) simp_all

lemma diff_sequence_eq [simp]: "diff_sequence a b c = Inr (diff_sequence_bruteforce a b c)"
  by (simp add: diff_sequence_def diff_sequence_using_def diff_sequence_algorithm_def)

section \<open>The loops of the list differ\<close>

lemma items_loop_post:
  assumes step: "\<And>x y Q. x \<in> set a \<Longrightarrow> \<not> is_atomic x \<Longrightarrow> R x y \<Longrightarrow> J Q \<Longrightarrow> post bad Q (f x y sp Q)"
    and Jg: "\<And>Q Q'. J Q \<Longrightarrow> grows Q Q' \<Longrightarrow> J Q'"
    and "J P" "i + n \<le> length a" "j + n \<le> length b"
    and "\<forall>k < n. R (a ! (i + k)) (b ! (j + k))"
  shows "post bad P (items_loop f sp a b i j n di P)"
  using assms(3-)
proof (induction n arbitrary: i j di P)
  case 0
  show ?case by simp
next
  case (Suc n)
  from Suc.prems have i: "i < length a" and j: "j < length b" by auto
  from Suc.prems(4) have R0: "R (a ! i) (b ! j)" by (metis add.right_neutral zero_less_Suc)
  have Rn: "\<forall>k < n. R (a ! (Suc i + k)) (b ! (Suc j + k))"
    using Suc.prems(4) by (metis Suc_less_eq add_Suc_shift)
  have rest: "post bad Q (items_loop f sp a b (Suc i) (Suc j) n d Q)" if "J Q" for d Q
    by (rule Suc.IH [OF that _ _ Rn]) (use Suc.prems in auto)
  show ?case
  proof (cases "is_atomic (a ! i)")
    case True
    with i j rest [OF Suc.prems(1)] show ?thesis by simp
  next
    case False
    from i have "a ! i \<in> set a" by simp
    from step [OF this False R0 Suc.prems(1)]
    have p: "post bad P (f (a ! i) (b ! j) sp P)" .
    show ?thesis
    proof (cases "f (a ! i) (b ! j) sp P")
      case (Inl err)
      with p False i j show ?thesis by simp
    next
      case (Inr r)
      obtain cd Q where r: "r = (cd, Q)" by (cases r) auto
      from p Inr r have g: "grows P Q" by simp
      from Jg [OF Suc.prems(1) g] have "J Q" .
      from post_grows [OF g rest [OF this]] Inr r False i j show ?thesis by simp
    qed
  qed
qed

definition post_cursors ::
  "(error \<Rightarrow> bool) \<Rightarrow> registry \<Rightarrow> error + (nat \<times> nat \<times> diff \<times> registry) \<Rightarrow> bool" where
  "post_cursors bad P r =
     (case r of Inl err \<Rightarrow> \<not> bad err | Inr (i, j, di, Q) \<Rightarrow> grows P Q)"

lemma post_cursors_grows: "grows P Q \<Longrightarrow> post_cursors bad Q r \<Longrightarrow> post_cursors bad P r"
  by (auto simp: post_cursors_def split: sum.splits intro: grows_trans)

lemma entries_loop_post:
  assumes step: "\<And>x y Q. x \<in> set a \<Longrightarrow> \<not> is_atomic x \<Longrightarrow> R x y \<Longrightarrow> J Q \<Longrightarrow> post bad Q (f x y sp Q)"
    and Jg: "\<And>Q Q'. J Q \<Longrightarrow> grows Q Q' \<Longrightarrow> J Q'"
    and "J P" "walkable R a b sd i j"
  shows "post_cursors bad P (entries_loop f sp a b sd i j di P)"
  using assms(3-)
proof (induction sd arbitrary: i j di P)
  case Nil
  then have w: "i \<le> length a" "j \<le> length b" "length b - j = length a - i"
    "\<forall>k < length a - i. R (a ! (i + k)) (b ! (j + k))" by auto
  have "post bad P (items_loop f sp a b i j (length a - i) di P)"
  proof (rule items_loop_post [where R = R and J = J])
    show "\<And>x y Q. x \<in> set a \<Longrightarrow> \<not> is_atomic x \<Longrightarrow> R x y \<Longrightarrow> J Q \<Longrightarrow> post bad Q (f x y sp Q)"
      by (rule step)
    show "\<And>Q Q'. J Q \<Longrightarrow> grows Q Q' \<Longrightarrow> J Q'" by (rule Jg)
  qed (use w Nil.prems(1) in auto)
  moreover have "nat (int (length a) - int i) = length a - i" by simp
  moreover have "int (length b) - int j = int (length a) - int i" using w by linarith
  ultimately show ?case using w
    by (auto simp: post_cursors_def post_def Let_def split: sum.splits)
next
  case (Cons e es)
  from Cons.prems(2) obtain index where k: "entry_key e = Idx index"
    by (cases "entry_key e") auto
  obtain askip bskip where c: "count_consumed_symbols e = (askip, bskip)"
    by (cases "count_consumed_symbols e") auto
  from Cons.prems(2) k c have w: "i \<le> index" "index \<le> length a" "j + (index - i) \<le> length b"
    "\<forall>k < index - i. R (a ! (i + k)) (b ! (j + k))"
    "walkable R a b es (index + askip) (j + (index - i) + bskip)" by auto
  have n: "nat (max 0 (int index - int i)) = index - i" by simp
  have p: "post bad P (items_loop f sp a b i j (index - i) di P)"
  proof (rule items_loop_post [where R = R and J = J])
    show "\<And>x y Q. x \<in> set a \<Longrightarrow> \<not> is_atomic x \<Longrightarrow> R x y \<Longrightarrow> J Q \<Longrightarrow> post bad Q (f x y sp Q)"
      by (rule step)
    show "\<And>Q Q'. J Q \<Longrightarrow> grows Q Q' \<Longrightarrow> J Q'" by (rule Jg)
  qed (use w Cons.prems(1) in auto)
  show ?case
  proof (cases "items_loop f sp a b i j (index - i) di P")
    case (Inl err)
    with p show ?thesis by (simp add: k c n Let_def post_cursors_def del: max.absorb1 max.absorb2 max.absorb3 max.absorb4)
  next
    case (Inr r)
    obtain di' Q where r: "r = (di', Q)" by (cases r) auto
    from p Inr r have g: "grows P Q" by simp
    from w(1) have "i + (index - i) = index" by simp
    with w(5) have "walkable R a b es (i + (index - i) + askip) (j + (index - i) + bskip)" by simp
    from Cons.IH [OF Jg [OF Cons.prems(1) g] this]
    have "post_cursors bad Q
            (entries_loop f sp a b es (i + (index - i) + askip) (j + (index - i) + bskip) (di' @ [e]) Q)" .
    from post_cursors_grows [OF g this] Inr r show ?thesis
      by (simp add: k c n Let_def del: max.absorb1 max.absorb2 max.absorb3 max.absorb4)
  qed
qed

lemma entries_loop_cursors:
  "entries_loop f sp a b sd i j di P = Inr (i', j', di', Q) \<Longrightarrow> i' = length a \<and> j' = length b"
proof (induction sd arbitrary: i j di P)
  case Nil
  then show ?case
    by (auto simp: Let_def split: if_splits sum.splits)
next
  case (Cons e es)
  then show ?case
    by (auto simp: Let_def split: key.splits prod.splits sum.splits)
qed

lemma validated_cases: "validated di = Inr di \<or> validated di = Inl MalformedDiff"
  by (auto simp: validated_def validate_diff_def)

lemma validate_diff_cases: "validate_diff d = Inr d \<or> validate_diff d = Inl MalformedDiff"
  by (auto simp: validate_diff_def)

lemma validate_result_post:
  assumes "\<not> bad MalformedDiff" "post bad P r"
  shows "post bad P (validate_result r)"
proof (cases r)
  case (Inl err)
  with assms show ?thesis by (simp add: validate_result_def)
next
  case (Inr x)
  obtain d Q where x: "x = (d, Q)" by (cases x) auto
  from validate_diff_cases [of d] assms Inr x show ?thesis
    by (auto simp: validate_result_def)
qed

lemma diff_lists_with_post:
  assumes nodiffer: "differs E (path @ ''/'' @ ''*'') = None"
    and step: "\<And>x y Q. x \<in> set a \<Longrightarrow> \<not> is_atomic x \<Longrightarrow> R x y \<Longrightarrow> J Q
        \<Longrightarrow> post bad Q (f x y (path @ ''/'' @ ''*'') Q)"
    and Jg: "\<And>Q Q'. J Q \<Longrightarrow> grows Q Q' \<Longrightarrow> J Q'"
    and J1: "\<And>Q p cs. J Q \<Longrightarrow> Q p = Some cs \<Longrightarrow> \<exists>c. cs = [c] \<and> (\<forall>x y. apply_compare c x y \<longrightarrow> R x y)"
    and "J P" "\<not> bad MalformedDiff"
  shows "post bad P (diff_lists_with E f a b path P None)"
proof -
  obtain cs P1 where gi: "getitem_predicates P path = (cs, P1)"
    by (cases "getitem_predicates P path") auto
  have g1: "grows P P1" by (rule grows_getitem [OF gi])
  have JP1: "J P1" by (rule Jg [OF assms(5) g1])
  from J1 [OF JP1 getitem_dom [OF gi]] obtain c where cs: "cs = [c]"
    and cR: "\<And>x y. apply_compare c x y \<Longrightarrow> R x y" by auto
  let ?sd = "diff_sequence_bruteforce a b c"
  have "walkable (apply_compare c) a b ?sd 0 0" by (rule diff_sequence_bruteforce_walkable)
  have step': "post bad Q (f x y (path @ ''/'' @ ''*'') Q)"
    if "x \<in> set a" "\<not> is_atomic x" "apply_compare c x y" "J Q" for x y Q
    using step [OF that(1,2) cR [OF that(3)] that(4)] .
  have el: "post_cursors bad P1 (entries_loop f (path @ ''/'' @ ''*'') a b ?sd 0 0 [] P1)"
  proof (rule entries_loop_post [where R = "apply_compare c" and J = J])
    show "\<And>x y Q. x \<in> set a \<Longrightarrow> \<not> is_atomic x \<Longrightarrow> apply_compare c x y \<Longrightarrow> J Q
        \<Longrightarrow> post bad Q (f x y (path @ ''/'' @ ''*'') Q)"
      by (rule step')
    show "\<And>Q Q'. J Q \<Longrightarrow> grows Q Q' \<Longrightarrow> J Q'" by (rule Jg)
    show "J P1" by (rule JP1)
    show "walkable (apply_compare c) a b ?sd 0 0" by (rule diff_sequence_bruteforce_walkable)
  qed
  have "post bad P1 (diff_lists_with E f a b path P None)"
  proof (cases "entries_loop f (path @ ''/'' @ ''*'') a b ?sd 0 0 [] P1")
    case (Inl err)
    with el show ?thesis
      by (simp add: diff_lists_with_def gi cs nodiffer [simplified] post_cursors_def Let_def)
  next
    case (Inr r)
    obtain i j di Q where r: "r = (i, j, di, Q)" by (cases r) auto
    from entries_loop_cursors [OF Inr [unfolded r]] have ij: "i = length a" "j = length b" by auto
    from el Inr r have "grows P1 Q" by (simp add: post_cursors_def)
    with validated_cases [of di] assms(6) Inr r ij show ?thesis
      by (auto simp: diff_lists_with_def gi cs nodiffer [simplified] Let_def)
  qed
  then show ?thesis by (rule post_grows [OF g1])
qed

section \<open>The loops of the dict differ and the errors of a run\<close>

lemma type_of_diffable: "type_of x = type_of y \<Longrightarrow> \<not> is_atomic x \<Longrightarrow> diffable x y"
  by (cases x; cases y) simp_all

lemma common_loop_post:
  assumes nodiffer: "\<And>k. differs E (path @ ''/'' @ k) = None"
    and step: "\<And>k x y Q. x \<in> snd ` set a \<Longrightarrow> type_of x = type_of y \<Longrightarrow> \<not> is_atomic x \<Longrightarrow> J Q
        \<Longrightarrow> post bad Q (f x y (path @ ''/'' @ k) Q)"
    and Jg: "\<And>Q Q'. J Q \<Longrightarrow> grows Q Q' \<Longrightarrow> J Q'"
    and "J P" "\<not> bad PredicateConflict" "set keys \<subseteq> fst ` set a" "set keys \<subseteq> fst ` set b"
  shows "post bad P (common_loop E f a b path keys di P)"
  using assms(4-)
proof (induction keys arbitrary: di P)
  case Nil
  show ?case by simp
next
  case (Cons key keys)
  from Cons.prems obtain av bv where av: "map_of a key = Some av" and bv: "map_of b key = Some bv"
    by (metis list.set_intros(1) subsetD weak_map_of_SomeI map_of_eq_None_iff not_Some_eq)
  have rest: "post bad Q (common_loop E f a b path keys d Q)" if "J Q" for d Q
    by (rule Cons.IH [OF that]) (use Cons.prems in auto)
  show ?case
  proof (cases "type_of av = type_of bv \<and> \<not> is_atomic av")
    case False
    with rest [OF Cons.prems(1)] Cons.prems(2) av bv show ?thesis by auto
  next
    case True
    from map_of_SomeD [OF av] have "av \<in> snd ` set a" by force
    from step [OF this _ _ Cons.prems(1)] True
    have p: "post bad P (f av bv (path @ ''/'' @ key) P)" by simp
    show ?thesis
    proof (cases "f av bv (path @ ''/'' @ key) P")
      case (Inl err)
      with p True av bv show ?thesis by (simp add: nodiffer [simplified] Let_def)
    next
      case (Inr r)
      obtain dd Q where r: "r = (dd, Q)" by (cases r) auto
      from p Inr r have g: "grows P Q" by simp
      from post_grows [OF g rest [OF Jg [OF Cons.prems(1) g]]] Inr r True av bv
      show ?thesis by (simp add: nodiffer [simplified] Let_def)
    qed
  qed
qed

lemma add_loop_Inr:
  "set keys \<subseteq> fst ` set b \<Longrightarrow> \<exists>di'. add_loop b keys di = Inr di'"
proof (induction keys arbitrary: di)
  case Nil
  show ?case by simp
next
  case (Cons key keys)
  then obtain bv where "map_of b key = Some bv"
    by (metis list.set_intros(1) subsetD map_of_eq_None_iff not_Some_eq)
  with Cons show ?case by simp
qed

lemma set_dict_keys [simp]: "set (dict_keys a) = fst ` set a"
  by (simp add: dict_keys_def)

lemma diff_dicts_with_post:
  assumes nodiffer: "\<And>k. differs E (path @ ''/'' @ k) = None"
    and step: "\<And>k x y Q. x \<in> snd ` set a \<Longrightarrow> type_of x = type_of y \<Longrightarrow> \<not> is_atomic x \<Longrightarrow> J Q
        \<Longrightarrow> post bad Q (f x y (path @ ''/'' @ k) Q)"
    and Jg: "\<And>Q Q'. J Q \<Longrightarrow> grows Q Q' \<Longrightarrow> J Q'"
    and "J P" "\<not> bad PredicateConflict" "\<not> bad MalformedDiff"
  shows "post bad P (diff_dicts_with E f a b path P)"
proof -
  let ?ks = "sort (filter (\<lambda>k. k \<in> set (dict_keys b)) (dict_keys a))"
  let ?di = "map (\<lambda>key. Remove (Name key)) (sort (filter (\<lambda>k. k \<notin> set (dict_keys b)) (dict_keys a)))"
  have cl: "post bad P (common_loop E f a b path ?ks ?di P)"
  proof (rule common_loop_post [where J = J])
    show "\<And>k. differs E (path @ ''/'' @ k) = None" by (rule nodiffer)
    show "\<And>k x y Q. x \<in> snd ` set a \<Longrightarrow> type_of x = type_of y \<Longrightarrow> \<not> is_atomic x \<Longrightarrow> J Q
        \<Longrightarrow> post bad Q (f x y (path @ ''/'' @ k) Q)" by (rule step)
    show "\<And>Q Q'. J Q \<Longrightarrow> grows Q Q' \<Longrightarrow> J Q'" by (rule Jg)
  qed (use assms(4,5) in auto)
  show ?thesis
  proof (cases "common_loop E f a b path ?ks ?di P")
    case (Inl err)
    with cl show ?thesis by (simp add: diff_dicts_with_def Let_def)
  next
    case (Inr r)
    obtain di' Q where r: "r = (di', Q)" by (cases r) auto
    from cl Inr r have g: "grows P Q" by simp
    obtain di'' where al:
      "add_loop b (sort (filter (\<lambda>k. k \<notin> set (dict_keys a)) (dict_keys b))) di' = Inr di''"
      using add_loop_Inr [of "sort (filter (\<lambda>k. k \<notin> set (dict_keys a)) (dict_keys b))" b di']
      by auto
    from validated_cases [of di''] g assms(6) Inr r al show ?thesis
      by (auto simp: diff_dicts_with_def Let_def)
  qed
qed

lemma only_eq_lookup:
  assumes "only_eq Q" "Q p = Some cs"
  shows "\<exists>c. cs = [c] \<and> (\<forall>x y. apply_compare c x y \<longrightarrow> py_eq x y)"
proof -
  from assms have "cs = [OpEq]" by (simp add: only_eq_def)
  then show ?thesis by simp
qed

definition internal_error :: "error \<Rightarrow> bool" where
  "internal_error err \<longleftrightarrow> err \<in> {AssertionError, IndexError, KeyError, TypeError, NameError,
     UnsupportedPredicate, UnknownAlgorithm}"

lemma diff_post:
  assumes "differs E = Map.empty"
  shows "(single_level P \<longrightarrow> post internal_error P (diff E a b path P)) \<and>
         (only_eq P \<longrightarrow> diffable a b \<longrightarrow>
            post (\<lambda>err. internal_error err \<or> err = UnsupportedValueKind) P (diff E a b path P))"
  using assms
proof (induction E a b path P rule: diff.induct)
  case (1 E a b path P)
  let ?bad2 = "\<lambda>err. internal_error err \<or> err = UnsupportedValueKind"
  have nd: "differs E (path @ ''/'' @ ''*'') = None" using "1.prems" by simp
  have A: "post internal_error P (diff_lists_with E (\<lambda>x y p Q. diff E x y p Q) a b path P None)"
    if "single_level P"
  proof (rule diff_lists_with_post [where J = single_level and R = "\<lambda>_ _. True"])
    show "\<And>x y Q. x \<in> set a \<Longrightarrow> \<not> is_atomic x \<Longrightarrow> True \<Longrightarrow> single_level Q
        \<Longrightarrow> post internal_error Q (diff E x y (path @ ''/'' @ ''*'') Q)"
      using "1.IH" "1.prems" by blast
    show "\<And>Q Q'. single_level Q \<Longrightarrow> grows Q Q' \<Longrightarrow> single_level Q'" by (rule single_level_grows)
    show "\<And>Q p cs. single_level Q \<Longrightarrow> Q p = Some cs
        \<Longrightarrow> \<exists>c. cs = [c] \<and> (\<forall>x y. apply_compare c x y \<longrightarrow> True)"
      by (auto simp: single_level_def length_Suc_conv)
  qed (use nd that in \<open>auto simp: internal_error_def\<close>)
  have B: "post ?bad2 P (diff_lists_with E (\<lambda>x y p Q. diff E x y p Q) a b path P None)"
    if "only_eq P"
  proof (rule diff_lists_with_post [where J = only_eq and R = py_eq])
    show "\<And>x y Q. x \<in> set a \<Longrightarrow> \<not> is_atomic x \<Longrightarrow> py_eq x y \<Longrightarrow> only_eq Q
        \<Longrightarrow> post ?bad2 Q (diff E x y (path @ ''/'' @ ''*'') Q)"
      using "1.IH" "1.prems" py_eq_diffable by blast
    show "\<And>Q Q'. only_eq Q \<Longrightarrow> grows Q Q' \<Longrightarrow> only_eq Q'" by (rule only_eq_grows)
    show "\<And>Q p cs. only_eq Q \<Longrightarrow> Q p = Some cs
        \<Longrightarrow> \<exists>c. cs = [c] \<and> (\<forall>x y. apply_compare c x y \<longrightarrow> py_eq x y)"
      by (rule only_eq_lookup)
  qed (use nd that in \<open>auto simp: internal_error_def\<close>)
  have "\<not> internal_error MalformedDiff" by (simp add: internal_error_def)
  with A B show ?case
    by (auto intro!: validate_result_post)
next
  case (2 E a b path P)
  let ?bad2 = "\<lambda>err. internal_error err \<or> err = UnsupportedValueKind"
  have nd: "\<And>k. differs E (path @ ''/'' @ k) = None" using "2.prems" by simp
  have A: "post internal_error P (diff_dicts_with E (\<lambda>x y p Q. diff E x y p Q) a b path P)"
    if "single_level P"
  proof (rule diff_dicts_with_post [where J = single_level])
    show "\<And>k x y Q. x \<in> snd ` set a \<Longrightarrow> type_of x = type_of y \<Longrightarrow> \<not> is_atomic x
        \<Longrightarrow> single_level Q \<Longrightarrow> post internal_error Q (diff E x y (path @ ''/'' @ k) Q)"
      using "2.IH" "2.prems" by blast
    show "\<And>Q Q'. single_level Q \<Longrightarrow> grows Q Q' \<Longrightarrow> single_level Q'" by (rule single_level_grows)
  qed (use nd that in \<open>auto simp: internal_error_def\<close>)
  have B: "post ?bad2 P (diff_dicts_with E (\<lambda>x y p Q. diff E x y p Q) a b path P)"
    if "only_eq P"
  proof (rule diff_dicts_with_post [where J = only_eq])
    show "\<And>k x y Q. x \<in> snd ` set a \<Longrightarrow> type_of x = type_of y \<Longrightarrow> \<not> is_atomic x
        \<Longrightarrow> only_eq Q \<Longrightarrow> post ?bad2 Q (diff E x y (path @ ''/'' @ k) Q)"
      using "2.IH" "2.prems" type_of_diffable by blast
    show "\<And>Q Q'. only_eq Q \<Longrightarrow> grows Q Q' \<Longrightarrow> only_eq Q'" by (rule only_eq_grows)
  qed (use nd that in \<open>auto simp: internal_error_def\<close>)
  have "\<not> internal_error MalformedDiff" by (simp add: internal_error_def)
  with A B show ?case
    by (auto intro!: validate_result_post)
next
  case (3 E a b path P)
  have "\<not> internal_error MalformedDiff" by (simp add: internal_error_def)
  then show ?case
    by (auto intro!: validate_result_post)
qed (simp_all add: internal_error_def)

section \<open>A document against itself\<close>

lemma diff_undiffable: "\<not> diffable a b \<Longrightarrow> diff E a b path P = Inl UnsupportedValueKind"
  by (cases a; cases b) simp_all

lemma validate_diff_Nil [simp]: "validate_diff [] = Inr []"
  by (simp add: validate_diff_def valid_sequence_diff_def)

lemma validated_Nil [simp]: "validated [] = Inr []"
  by (simp add: validated_def)

lemma items_loop_same:
  assumes step: "\<And>x Q. x \<in> set a \<Longrightarrow> J Q \<Longrightarrow> \<exists>Q'. f x x sp Q = Inr ([], Q') \<and> grows Q Q'"
    and Jg: "\<And>Q Q'. J Q \<Longrightarrow> grows Q Q' \<Longrightarrow> J Q'"
    and "J P" "i + n \<le> length a"
  shows "\<exists>P'. items_loop f sp a a i i n di P = Inr (di, P') \<and> grows P P'"
  using assms(3-)
proof (induction n arbitrary: i P)
  case 0
  show ?case by simp
next
  case (Suc n)
  from Suc.prems have i: "i < length a" by simp
  then have "a ! i \<in> set a" by simp
  from step [OF this Suc.prems(1)] obtain Q where
    f: "f (a ! i) (a ! i) sp P = Inr ([], Q)" and g: "grows P Q" by auto
  have "\<exists>P'. items_loop f sp a a (Suc i) (Suc i) n di Q' = Inr (di, P') \<and> grows Q' P'"
    if "J Q'" for Q'
    by (rule Suc.IH [OF that]) (use Suc.prems in simp)
  from this [OF Suc.prems(1)] this [OF Jg [OF Suc.prems(1) g]] f g i show ?case
    by (auto intro: grows_trans)
qed

lemma diff_lists_with_same:
  assumes nodiffer: "differs E (path @ ''/'' @ ''*'') = None"
    and step: "\<And>x Q. x \<in> set a \<Longrightarrow> only_eq Q
        \<Longrightarrow> \<exists>Q'. f x x (path @ ''/'' @ ''*'') Q = Inr ([], Q') \<and> grows Q Q'"
    and "only_eq P"
  shows "\<exists>P'. diff_lists_with E f a a path P None = Inr ([], P') \<and> grows P P'"
proof -
  obtain cs P1 where gi: "getitem_predicates P path = (cs, P1)"
    by (cases "getitem_predicates P path") auto
  have g1: "grows P P1" by (rule grows_getitem [OF gi])
  have P1: "only_eq P1" by (rule only_eq_grows [OF assms(3) g1])
  from P1 getitem_dom [OF gi] have cs: "cs = [OpEq]" by (simp add: only_eq_def)
  have sd: "diff_sequence_bruteforce a a OpEq = []"
    by (simp add: diff_sequence_bruteforce_def lcs_script_same py_eq_refl)
  have "\<exists>P'. items_loop f (path @ ''/'' @ ''*'') a a 0 0 (length a) [] P1 = Inr ([], P') \<and> grows P1 P'"
  proof (rule items_loop_same [where J = only_eq])
    show "\<And>x Q. x \<in> set a \<Longrightarrow> only_eq Q
        \<Longrightarrow> \<exists>Q'. f x x (path @ ''/'' @ ''*'') Q = Inr ([], Q') \<and> grows Q Q'" by (rule step)
    show "\<And>Q Q'. only_eq Q \<Longrightarrow> grows Q Q' \<Longrightarrow> only_eq Q'" by (rule only_eq_grows)
  qed (use P1 in auto)
  then obtain P' where "items_loop f (path @ ''/*'') a a 0 0 (length a) [] P1 = Inr ([], P')"
    and "grows P1 P'" by auto
  with g1 show ?thesis
    by (auto simp: diff_lists_with_def gi cs sd nodiffer [simplified] Let_def intro: grows_trans)
qed

lemma common_loop_same:
  assumes nodiffer: "\<And>k. differs E (path @ ''/'' @ k) = None"
    and step: "\<And>k x Q. x \<in> snd ` set a \<Longrightarrow> J Q
        \<Longrightarrow> \<exists>Q'. f x x (path @ ''/'' @ k) Q = Inr ([], Q') \<and> grows Q Q'"
    and nonatomic: "\<And>x. x \<in> snd ` set a \<Longrightarrow> \<not> is_atomic x"
    and Jg: "\<And>Q Q'. J Q \<Longrightarrow> grows Q Q' \<Longrightarrow> J Q'"
    and "J P" "set keys \<subseteq> fst ` set a"
  shows "\<exists>P'. common_loop E f a a path keys di P = Inr (di, P') \<and> grows P P'"
  using assms(5-)
proof (induction keys arbitrary: P)
  case Nil
  show ?case by simp
next
  case (Cons key keys)
  from Cons.prems obtain av where av: "map_of a key = Some av"
    by (metis list.set_intros(1) subsetD map_of_eq_None_iff not_Some_eq)
  from map_of_SomeD [OF av] have mem: "av \<in> snd ` set a" by force
  from step [OF mem Cons.prems(1)] obtain Q where
    f: "f av av (path @ ''/'' @ key) P = Inr ([], Q)" and g: "grows P Q" by auto
  have "\<exists>P'. common_loop E f a a path keys di Q = Inr (di, P') \<and> grows Q P'"
    by (rule Cons.IH [OF Jg [OF Cons.prems(1) g]]) (use Cons.prems in simp)
  with f g av nonatomic [OF mem] show ?case
    by (auto simp: nodiffer [simplified] Let_def intro: grows_trans)
qed

lemma diff_dicts_with_same:
  assumes nodiffer: "\<And>k. differs E (path @ ''/'' @ k) = None"
    and step: "\<And>k x Q. x \<in> snd ` set a \<Longrightarrow> only_eq Q
        \<Longrightarrow> \<exists>Q'. f x x (path @ ''/'' @ k) Q = Inr ([], Q') \<and> grows Q Q'"
    and nonatomic: "\<And>x. x \<in> snd ` set a \<Longrightarrow> \<not> is_atomic x"
    and "only_eq P"
  shows "\<exists>P'. diff_dicts_with E f a a path P = Inr ([], P') \<and> grows P P'"
proof -
  have none: "filter (\<lambda>k. k \<notin> set (dict_keys a)) (dict_keys a) = []"
    by (simp add: filter_empty_conv)
  have all: "filter (\<lambda>k. k \<in> set (dict_keys a)) (dict_keys a) = dict_keys a"
    by (simp add: filter_id_conv)
  have "\<exists>P'. common_loop E f a a path (sort (dict_keys a)) [] P = Inr ([], P') \<and> grows P P'"
  proof (rule common_loop_same [where J = only_eq])
    show "\<And>k. differs E (path @ ''/'' @ k) = None" by (rule nodiffer)
    show "\<And>k x Q. x \<in> snd ` set a \<Longrightarrow> only_eq Q
        \<Longrightarrow> \<exists>Q'. f x x (path @ ''/'' @ k) Q = Inr ([], Q') \<and> grows Q Q'" by (rule step)
    show "\<And>x. x \<in> snd ` set a \<Longrightarrow> \<not> is_atomic x" by (rule nonatomic)
    show "\<And>Q Q'. only_eq Q \<Longrightarrow> grows Q Q' \<Longrightarrow> only_eq Q'" by (rule only_eq_grows)
  qed (use assms(4) in auto)
  then show ?thesis
    by (auto simp del: set_dict_keys simp: diff_dicts_with_def none all Let_def)
qed

lemma composite_not_atomic: "composite x \<Longrightarrow> \<not> is_atomic x"
  by (cases x) simp_all

lemma diff_same:
  assumes "differs E = Map.empty" "only_eq P" "composite a"
  shows "\<exists>P'. diff E a a path P = Inr ([], P') \<and> grows P P'"
  using assms(2,3)
proof (induction a arbitrary: path P)
  case (VStr s)
  show ?case by (simp add: validate_result_def diff_strings_same)
next
  case (VList xs)
  have "\<exists>P'. diff_lists_with E (diff E) xs xs path P None = Inr ([], P') \<and> grows P P'"
  proof (rule diff_lists_with_same)
    show "differs E (path @ ''/'' @ ''*'') = None" using assms(1) by simp
    show "\<And>x Q. x \<in> set xs \<Longrightarrow> only_eq Q
        \<Longrightarrow> \<exists>Q'. diff E x x (path @ ''/'' @ ''*'') Q = Inr ([], Q') \<and> grows Q Q'"
      using VList by (auto simp: list_all_iff)
    show "only_eq P" by (rule VList.prems(1))
  qed
  then show ?case by (auto simp: validate_result_def)
next
  case (VDict kvs)
  have "\<exists>P'. diff_dicts_with E (diff E) kvs kvs path P = Inr ([], P') \<and> grows P P'"
  proof (rule diff_dicts_with_same)
    show "\<And>k. differs E (path @ ''/'' @ k) = None" using assms(1) by simp
    show "\<And>k x Q. x \<in> snd ` set kvs \<Longrightarrow> only_eq Q
        \<Longrightarrow> \<exists>Q'. diff E x x (path @ ''/'' @ k) Q = Inr ([], Q') \<and> grows Q Q'"
    proof -
      fix k x Q
      assume "x \<in> snd ` set kvs" and Q: "only_eq Q"
      then obtain k' where mem: "(k', x) \<in> set kvs" by auto
      with VDict.prems(2) have "composite x" by (auto simp: list_all_iff)
      from VDict.IH [OF mem _ Q this, of "path @ ''/'' @ k"]
      show "\<exists>Q'. diff E x x (path @ ''/'' @ k) Q = Inr ([], Q') \<and> grows Q Q'" by simp
    qed
    show "\<And>x. x \<in> snd ` set kvs \<Longrightarrow> \<not> is_atomic x"
      using VDict.prems(2) by (fastforce simp: list_all_iff dest: composite_not_atomic)
    show "only_eq P" by (rule VDict.prems(1))
  qed
  then show ?case by (auto simp: validate_result_def)
qed simp_all
section \<open>What a sequence diff accounts for\<close>

text \<open>
  \<open>consume d i j\<close> walks a sequence diff from the cursors \<open>i\<close> (in the source) and
  \<open>j\<close> (in the target) as its consumer does: the elements between the cursor and the
  key of the next entry are equal ones that the diff does not mention, and come off both
  sides; the entry then takes what \<open>count_consumed_symbols\<close> gives; a key before the
  cursor would mention a source position a second time. \<open>accounted d la lb\<close>: the walk
  goes through, and what it leaves of a source of length \<open>la\<close> and a target of length
  \<open>lb\<close> is one run of unmentioned equal elements, so that every position of both
  sides is taken exactly once. \<open>lockstep di i j\<close> is the invariant of the loop of
  \<^verbatim>\<open>diff_lists\<close> between the builder and the cursors.
\<close>

fun consume :: "diff \<Rightarrow> nat \<Rightarrow> nat \<Rightarrow> (nat \<times> nat) option" where
  "consume [] i j = Some (i, j)"
| "consume (e # es) i j =
     (case entry_key e of
        Name _ \<Rightarrow> None
      | Idx index \<Rightarrow>
          if index < i then None
          else
            (case count_consumed_symbols e of
               (askip, bskip) \<Rightarrow> consume es (index + askip) (j + (index - i) + bskip)))"

definition accounted :: "diff \<Rightarrow> nat \<Rightarrow> nat \<Rightarrow> bool" where
  "accounted d la lb =
     (case consume d 0 0 of
        None \<Rightarrow> False
      | Some (i, j) \<Rightarrow> i \<le> la \<and> j \<le> lb \<and> la - i = lb - j)"

lemma consume_append:
  "consume (d1 @ d2) i j =
     (case consume d1 i j of None \<Rightarrow> None | Some (i', j') \<Rightarrow> consume d2 i' j')"
  by (induction d1 arbitrary: i j) (auto split: key.splits prod.splits)

definition lockstep :: "diff \<Rightarrow> nat \<Rightarrow> nat \<Rightarrow> bool" where
  "lockstep di i j \<longleftrightarrow>
     (\<exists>i0 j0. consume di 0 0 = Some (i0, j0) \<and> i0 \<le> i \<and> j0 \<le> j \<and> i - i0 = j - j0)"

lemma lockstep_Suc: "lockstep di i j \<Longrightarrow> lockstep di (Suc i) (Suc j)"
  unfolding lockstep_def by (metis Suc_diff_le le_SucI)

lemma lockstep_patch:
  assumes "lockstep di i j"
  shows "lockstep (di @ [Patch (Idx i) cd]) (Suc i) (Suc j)"
proof -
  from assms obtain i0 j0 where c: "consume di 0 0 = Some (i0, j0)"
    and le: "i0 \<le> i" "j0 \<le> j" "i - i0 = j - j0" by (auto simp: lockstep_def)
  from le have "j0 + (i - i0) = j" by simp
  with c le have "consume (di @ [Patch (Idx i) cd]) 0 0 = Some (Suc i, Suc j)"
    by (simp add: consume_append)
  then show ?thesis by (simp add: lockstep_def)
qed

lemma items_loop_lockstep:
  "items_loop f sp a b i j n di P = Inr (di', P') \<Longrightarrow> lockstep di i j
     \<Longrightarrow> lockstep di' (i + n) (j + n)"
proof (induction n arbitrary: i j di P)
  case 0
  then show ?case by simp
next
  case (Suc n)
  show ?case
  proof (cases "is_atomic (a ! i)")
    case True
    with Suc.prems(1) have "items_loop f sp a b (Suc i) (Suc j) n di P = Inr (di', P')"
      by (simp split: if_splits)
    from Suc.IH [OF this lockstep_Suc [OF Suc.prems(2)]] show ?thesis by simp
  next
    case False
    with Suc.prems(1) obtain cd Q where
      r: "items_loop f sp a b (Suc i) (Suc j) n
            (if cd \<noteq> [] then di @ [Patch (Idx i) cd] else di) Q = Inr (di', P')"
      by (auto split: if_splits sum.splits)
    have "lockstep (if cd \<noteq> [] then di @ [Patch (Idx i) cd] else di) (Suc i) (Suc j)"
      using lockstep_patch [OF Suc.prems(2)] lockstep_Suc [OF Suc.prems(2)] by simp
    from Suc.IH [OF r this] show ?thesis by simp
  qed
qed

lemma lockstep_entry:
  assumes "lockstep di index j" "entry_key e = Idx index" "count_consumed_symbols e = (askip, bskip)"
  shows "lockstep (di @ [e]) (index + askip) (j + bskip)"
proof -
  from assms(1) obtain i0 j0 where c: "consume di 0 0 = Some (i0, j0)"
    and le: "i0 \<le> index" "j0 \<le> j" "index - i0 = j - j0" by (auto simp: lockstep_def)
  from le have "j0 + (index - i0) = j" by simp
  with c le assms(2,3) have "consume (di @ [e]) 0 0 = Some (index + askip, j + bskip)"
    by (simp add: consume_append)
  then show ?thesis by (simp add: lockstep_def)
qed

lemma entries_loop_lockstep:
  "entries_loop f sp a b sd i j di P = Inr (i', j', di', P') \<Longrightarrow> walkable c a b sd i j
     \<Longrightarrow> lockstep di i j \<Longrightarrow> lockstep di' i' j'"
proof (induction sd arbitrary: i j di P)
  case Nil
  from Nil.prems(2) have le: "i \<le> length a" by simp
  have n: "nat (int (length a) - int i) = length a - i" by simp
  from Nil.prems(1) have "\<exists>Q. items_loop f sp a b i j (length a - i) di P = Inr (di', Q) \<and>
      i' = i + (length a - i) \<and> j' = j + (length a - i)"
    unfolding entries_loop.simps Let_def n by (auto split: if_splits sum.splits)
  then obtain Q where il: "items_loop f sp a b i j (length a - i) di P = Inr (di', Q)"
    and ij: "i' = i + (length a - i)" "j' = j + (length a - i)" by auto
  from items_loop_lockstep [OF il Nil.prems(3)] ij show ?case by simp
next
  case (Cons e es)
  from Cons.prems(2) obtain index where k: "entry_key e = Idx index"
    by (cases "entry_key e") auto
  obtain askip bskip where cc: "count_consumed_symbols e = (askip, bskip)"
    by (cases "count_consumed_symbols e") auto
  from Cons.prems(2) k cc have w: "i \<le> index"
    "walkable c a b es (index + askip) (j + (index - i) + bskip)" by auto
  have n: "nat (max 0 (int index - int i)) = index - i" by simp
  from Cons.prems(1) k cc obtain di1 Q where
    il: "items_loop f sp a b i j (index - i) di P = Inr (di1, Q)" and
    el: "entries_loop f sp a b es (i + (index - i) + askip) (j + (index - i) + bskip) (di1 @ [e]) Q
           = Inr (i', j', di', P')"
    by (auto simp: n Let_def simp del: max.absorb1 max.absorb2 max.absorb3 max.absorb4
        split: sum.splits)
  from w(1) have ii: "i + (index - i) = index" by simp
  from items_loop_lockstep [OF il Cons.prems(3)] have "lockstep di1 index (j + (index - i))"
    by (simp add: ii)
  from lockstep_entry [OF this k cc]
  have "lockstep (di1 @ [e]) (index + askip) (j + (index - i) + bskip)" .
  from Cons.IH [OF el [unfolded ii] w(2) this] show ?case .
qed

lemma lockstep_Nil: "lockstep [] 0 0"
  by (simp add: lockstep_def)

lemma lockstep_accounted: "lockstep d la lb \<Longrightarrow> accounted d la lb"
  by (auto simp: lockstep_def accounted_def)

lemma validated_Inr: "validated di = Inr d \<Longrightarrow> d = di"
  by (auto simp: validated_def validate_diff_def split: if_splits)

lemma diff_lists_with_accounted:
  assumes "diff_lists_with E f a b path P None = Inr (d, P')"
    and "single_level P"
  shows "accounted d (length a) (length b)"
proof -
  obtain cs P1 where gi: "getitem_predicates P path = (cs, P1)"
    by (cases "getitem_predicates P path") auto
  have "single_level P1" by (rule single_level_grows [OF assms(2) grows_getitem [OF gi]])
  with getitem_dom [OF gi] obtain c where cs: "cs = [c]"
    by (auto simp: single_level_def length_Suc_conv)
  let ?f = "case differs E (path @ ''/*'') of None \<Rightarrow> f | Some d \<Rightarrow> d"
  from assms(1) obtain i j di where
    el: "entries_loop ?f (path @ ''/*'') a b (diff_sequence_bruteforce a b c) 0 0 [] P1
           = Inr (i, j, di, P')" and v: "validated di = Inr d"
    by (auto simp: diff_lists_with_def gi cs Let_def split: sum.splits if_splits)
  from entries_loop_cursors [OF el] have ij: "i = length a" "j = length b" by auto
  from entries_loop_lockstep [OF el diff_sequence_bruteforce_walkable lockstep_Nil]
  have "lockstep di (length a) (length b)" by (simp add: ij)
  with validated_Inr [OF v] show ?thesis by (simp add: lockstep_accounted)
qed

section \<open>Where the list differ puts a Patch\<close>

text \<open>
  \<open>patch_positions a old d\<close>: every Patch of \<open>d\<close> was in \<open>old\<close> already or stands
  at a position of \<open>a\<close> whose element is not atomic.
\<close>

definition patch_positions :: "val list \<Rightarrow> diff \<Rightarrow> diff \<Rightarrow> bool" where
  "patch_positions a old d \<longleftrightarrow>
     (\<forall>e \<in> set d. is_patch e \<longrightarrow>
        e \<in> set old \<or> (\<exists>p cd. e = Patch (Idx p) cd \<and> p < length a \<and> \<not> is_atomic (a ! p)))"

lemma items_loop_patches:
  "items_loop f sp a b i j n di P = Inr (di', P') \<Longrightarrow>
     filter (\<lambda>e. \<not> is_patch e) di' = filter (\<lambda>e. \<not> is_patch e) di \<and> patch_positions a di di'"
proof (induction n arbitrary: i j di P)
  case 0
  then show ?case by (auto simp: patch_positions_def)
next
  case (Suc n)
  from Suc.prems have i: "i < length a" by (auto split: if_splits)
  show ?case
  proof (cases "is_atomic (a ! i)")
    case True
    with Suc.prems have "items_loop f sp a b (Suc i) (Suc j) n di P = Inr (di', P')"
      by (simp split: if_splits)
    from Suc.IH [OF this] show ?thesis .
  next
    case False
    with Suc.prems obtain cd Q where
      r: "items_loop f sp a b (Suc i) (Suc j) n
            (if cd \<noteq> [] then di @ [Patch (Idx i) cd] else di) Q = Inr (di', P')"
      by (auto split: if_splits sum.splits)
    from Suc.IH [OF r] False i show ?thesis
      by (auto simp: patch_positions_def split: if_splits)
  qed
qed

lemma entries_loop_patches:
  "entries_loop f sp a b sd i j di P = Inr (i', j', di', P') \<Longrightarrow>
     filter (\<lambda>e. \<not> is_patch e) di' = filter (\<lambda>e. \<not> is_patch e) (di @ sd) \<and>
     patch_positions a (di @ sd) di'"
proof (induction sd arbitrary: i j di P)
  case Nil
  then obtain n Q where "items_loop f sp a b i j n di P = Inr (di', Q)"
    by (auto simp: Let_def split: if_splits sum.splits)
  from items_loop_patches [OF this] show ?case by simp
next
  case (Cons e es)
  then obtain n i1 j1 di1 Q where il: "items_loop f sp a b i j n di P = Inr (di1, Q)"
    and el: "entries_loop f sp a b es i1 j1 (di1 @ [e]) Q = Inr (i', j', di', P')"
    by (auto simp: Let_def split: key.splits prod.splits sum.splits)
  from items_loop_patches [OF il] Cons.IH [OF el] show ?case
    by (auto simp: patch_positions_def)
qed

lemma lcs_script_no_patch: "filter (\<lambda>e. \<not> is_patch e) (lcs_script c x as bs) = lcs_script c x as bs"
proof -
  have "list_all (\<lambda>e. \<not> is_patch e) (lcs_script c x as bs)"
    by (induction c x as bs rule: lcs_script.induct) (simp_all add: list_all_iff)
  then show ?thesis by (simp add: list_all_iff filter_id_conv)
qed

lemma lcs_script_patch_free: "Patch k cd \<notin> set (lcs_script c x as bs)"
proof
  assume "Patch k cd \<in> set (lcs_script c x as bs)"
  then have "Patch k cd \<in> set (filter (\<lambda>e. \<not> is_patch e) (lcs_script c x as bs))"
    by (simp only: lcs_script_no_patch)
  then show False by simp
qed

lemma diff_lists_with_patches:
  assumes "diff_lists_with E f a b path P None = Inr (d, P')"
    and "getitem_predicates P path = ([c], P1)"
  shows "filter (\<lambda>e. \<not> is_patch e) d = diff_sequence_bruteforce a b c \<and>
         (\<forall>p cd. Patch (Idx p) cd \<in> set d \<longrightarrow> p < length a \<and> \<not> is_atomic (a ! p))"
proof -
  let ?f = "case differs E (path @ ''/*'') of None \<Rightarrow> f | Some d \<Rightarrow> d"
  let ?sd = "diff_sequence_bruteforce a b c"
  from assms obtain i j di where
    el: "entries_loop ?f (path @ ''/*'') a b ?sd 0 0 [] P1 = Inr (i, j, di, P')"
    and v: "validated di = Inr d"
    by (auto simp: diff_lists_with_def Let_def split: sum.splits if_splits)
  from entries_loop_patches [OF el] validated_Inr [OF v]
  have f: "filter (\<lambda>e. \<not> is_patch e) d = filter (\<lambda>e. \<not> is_patch e) ?sd"
    and pp: "patch_positions a ?sd d" by simp_all
  have "p < length a \<and> \<not> is_atomic (a ! p)" if "Patch (Idx p) cd \<in> set d" for p cd
  proof -
    from pp that have "Patch (Idx p) cd \<in> set ?sd \<or> (p < length a \<and> \<not> is_atomic (a ! p))"
      by (fastforce simp: patch_positions_def)
    then show ?thesis
      by (auto simp: diff_sequence_bruteforce_def lcs_script_patch_free)
  qed
  with f show ?thesis
    by (simp add: diff_sequence_bruteforce_def lcs_script_no_patch)
qed

lemma items_loop_atomic:
  "list_all is_atomic a \<Longrightarrow> i + n \<le> length a \<Longrightarrow> j + n \<le> length b
     \<Longrightarrow> items_loop f sp a b i j n di P = Inr (di, P)"
  by (induction n arbitrary: i j) (auto simp: list_all_length)

lemma entries_loop_atomic:
  "list_all is_atomic a \<Longrightarrow> walkable c a b sd i j
     \<Longrightarrow> entries_loop f sp a b sd i j di P = Inr (length a, length b, di @ sd, P)"
proof (induction sd arbitrary: i j di)
  case Nil
  then have w: "i \<le> length a" "j \<le> length b" "length b - j = length a - i" by auto
  then have "int (length b) - int j = int (length a) - int i" by linarith
  moreover have "items_loop f sp a b i j (length a - i) di P = Inr (di, P)"
    by (rule items_loop_atomic [OF Nil.prems(1)]) (use w in auto)
  moreover have "nat (int (length a) - int i) = length a - i" by simp
  moreover have "j + (length a - i) = length b" using w by simp
  ultimately show ?case using w by (simp add: Let_def)
next
  case (Cons e es)
  from Cons.prems(2) obtain index where k: "entry_key e = Idx index"
    by (cases "entry_key e") auto
  obtain askip bskip where cc: "count_consumed_symbols e = (askip, bskip)"
    by (cases "count_consumed_symbols e") auto
  from Cons.prems(2) k cc have w: "i \<le> index" "index \<le> length a" "j + (index - i) \<le> length b"
    "walkable c a b es (index + askip) (j + (index - i) + bskip)" by auto
  have n: "nat (max 0 (int index - int i)) = index - i" by simp
  have il: "items_loop f sp a b i j (index - i) di P = Inr (di, P)"
    by (rule items_loop_atomic [OF Cons.prems(1)]) (use w in auto)
  from w(1) have ii: "i + (index - i) = index" by simp
  from Cons.IH [OF Cons.prems(1) w(4), of "di @ [e]"] il show ?case
    by (simp add: k cc n ii Let_def del: max.absorb1 max.absorb2 max.absorb3 max.absorb4)
qed

lemma diff_lists_with_atomic:
  assumes "list_all is_atomic a" and "getitem_predicates P path = ([c], P1)"
  shows "diff_lists_with E f a b path P None =
           (case validated (diff_sequence_bruteforce a b c) of
              Inl err \<Rightarrow> Inl err
            | Inr d \<Rightarrow> Inr (d, P1))"
  using entries_loop_atomic [OF assms(1) diff_sequence_bruteforce_walkable, of _ _ b c "[]" P1]
  by (simp add: diff_lists_with_def assms(2) Let_def)

section \<open>The entries of a dict diff\<close>

text \<open>
  \<open>plainly_compared\<close> is the condition of the \<^verbatim>\<open>else\<close> branch of line 182: the two
  values of a key are not of one type, or they are atomic. \<open>differ_at\<close> is
  \<^verbatim>\<open>differs.get(subpath, diff)\<close>. \<open>entry_name\<close> is the dict key of an entry, and
  \<open>onto di r\<close> puts the entries \<open>di\<close> in front of those of a result.
\<close>

definition plainly_compared :: "val \<Rightarrow> val \<Rightarrow> bool" where
  "plainly_compared avalue bvalue \<longleftrightarrow> \<not> (type_of avalue = type_of bvalue \<and> \<not> is_atomic avalue)"

definition differ_at :: "env \<Rightarrow> differ \<Rightarrow> string \<Rightarrow> differ" where
  "differ_at E recurse subpath = (case differs E subpath of Some d \<Rightarrow> d | None \<Rightarrow> recurse)"


definition onto :: "diff \<Rightarrow> error + (diff \<times> registry) \<Rightarrow> error + (diff \<times> registry)" where
  "onto di r = (case r of Inl err \<Rightarrow> Inl err | Inr (new, Q) \<Rightarrow> Inr (di @ new, Q))"

lemma onto_Nil [simp]: "onto [] r = r"
  by (auto simp: onto_def split: sum.splits)

lemma onto_onto: "onto di (onto di' r) = onto (di @ di') r"
  by (auto simp: onto_def split: sum.splits)

lemma onto_Inl [simp]: "onto di (Inl err) = Inl err"
  by (simp add: onto_def)

lemma onto_Inr [simp]: "onto di (Inr (new, Q)) = Inr (di @ new, Q)"
  by (simp add: onto_def)

lemma differ_at_simp:
  "(case differs E sp of None \<Rightarrow> f | Some d \<Rightarrow> d) = differ_at E f sp"
  by (simp add: differ_at_def)

lemma common_loop_onto:
  "common_loop E f a b path keys di P = onto di (common_loop E f a b path keys [] P)"
proof (induction keys arbitrary: di P)
  case Nil
  show ?case by simp
next
  case (Cons key keys)
  note IH = Cons.IH
  show ?case
  proof (cases "map_of a key")
    case None
    then show ?thesis by simp
  next
    case (Some av)
    note av = this
    show ?thesis
    proof (cases "map_of b key")
      case None
      with av show ?thesis by simp
    next
      case (Some bv)
      note bv = this
      show ?thesis
      proof (cases "type_of av = type_of bv \<and> \<not> is_atomic av")
        case False
        note plain = this
        show ?thesis
        proof (cases "path \<in> dom P")
          case True
          with plain av bv show ?thesis by auto
        next
          case False
          have "common_loop E f a b path keys (di @ [Replace (Name key) bv]) P =
                onto di (common_loop E f a b path keys [Replace (Name key) bv] P)"
            by (subst IH, subst (2) IH) (simp add: onto_onto)
          with False plain av bv IH [of di P] show ?thesis by auto
        qed
      next
        case True
        let ?r = "differ_at E f (path @ ''/'' @ key) av bv (path @ ''/'' @ key) P"
        show ?thesis
        proof (cases ?r)
          case (Inl err)
          with True av bv show ?thesis by (simp add: Let_def differ_at_simp)
        next
          case (Inr r)
          obtain dd Q where r: "r = (dd, Q)" by (cases r) auto
          have "common_loop E f a b path keys (di @ [Patch (Name key) dd]) Q =
                onto di (common_loop E f a b path keys [Patch (Name key) dd] Q)"
            by (subst IH, subst (2) IH) (simp add: onto_onto)
          with True av bv Inr r IH [of di Q] show ?thesis
            by (simp add: Let_def differ_at_simp)
        qed
      qed
    qed
  qed
qed

lemma common_loop_ConsD:
  assumes "common_loop E f a b path (key # keys) [] P = Inr (new, P')"
  shows "\<exists>av bv e0 new' Q.
           map_of a key = Some av \<and> map_of b key = Some bv \<and>
           common_loop E f a b path keys [] Q = Inr (new', P') \<and> new = e0 @ new' \<and>
           (if plainly_compared av bv
            then path \<notin> dom P \<and> Q = P \<and>
                 e0 = (if \<not> py_eq av bv then [Replace (Name key) bv] else [])
            else \<exists>dd. differ_at E f (path @ ''/'' @ key) av bv (path @ ''/'' @ key) P = Inr (dd, Q) \<and>
                 e0 = (if dd \<noteq> [] then [Patch (Name key) dd] else []))"
proof -
  from assms obtain av bv where av: "map_of a key = Some av" and bv: "map_of b key = Some bv"
    by (auto split: option.splits)
  show ?thesis
  proof (cases "plainly_compared av bv")
    case True
    then have plain: "\<not> (type_of av = type_of bv \<and> \<not> is_atomic av)"
      by (simp add: plainly_compared_def)
    from assms av bv plain have nd: "path \<notin> dom P" by (auto split: if_splits)
    let ?e0 = "if \<not> py_eq av bv then [Replace (Name key) bv] else []"
    from assms av bv plain nd have "common_loop E f a b path keys ?e0 P = Inr (new, P')"
      by (auto split: if_splits cong: if_cong)
    then obtain new' where "common_loop E f a b path keys [] P = Inr (new', P')" "new = ?e0 @ new'"
      by (subst (asm) common_loop_onto) (auto simp: onto_def split: sum.splits)
    with av bv True nd show ?thesis
      by (intro exI [of _ av] exI [of _ bv] exI [of _ ?e0] exI [of _ new'] exI [of _ P]) simp
  next
    case False
    then have rec: "type_of av = type_of bv \<and> \<not> is_atomic av"
      by (simp add: plainly_compared_def)
    from assms av bv rec obtain dd Q where
      d: "differ_at E f (path @ ''/'' @ key) av bv (path @ ''/'' @ key) P = Inr (dd, Q)"
      and l: "common_loop E f a b path keys (if dd \<noteq> [] then [Patch (Name key) dd] else []) Q
                = Inr (new, P')"
      by (auto simp: Let_def differ_at_simp split: sum.splits cong: if_cong)
    let ?e0 = "if dd \<noteq> [] then [Patch (Name key) dd] else []"
    from l obtain new' where "common_loop E f a b path keys [] Q = Inr (new', P')" "new = ?e0 @ new'"
      by (subst (asm) common_loop_onto) (auto simp: onto_def split: sum.splits)
    with av bv False d show ?thesis
      by (intro exI [of _ av] exI [of _ bv] exI [of _ ?e0] exI [of _ new'] exI [of _ Q]) simp
  qed
qed

lemma common_loop_names:
  assumes "common_loop E f a b path keys [] P = Inr (new, P')" and "distinct keys"
  shows "list_all (\<lambda>e. is_patch e \<or> is_replace e) new \<and>
         (\<exists>S. S \<subseteq> set keys \<and> map entry_key new = map Name (filter (\<lambda>k. k \<in> S) keys))"
  using assms
proof (induction keys arbitrary: new P)
  case Nil
  then show ?case by auto
next
  case (Cons key keys)
  from Cons.prems(2) have nk: "key \<notin> set keys" and dk: "distinct keys" by auto
  from common_loop_ConsD [OF Cons.prems(1)] obtain av bv e0 new' Q where
    rest: "common_loop E f a b path keys [] Q = Inr (new', P')"
    and new: "new = e0 @ new'"
    and sh: "if plainly_compared av bv
            then path \<notin> dom P \<and> Q = P \<and>
                 e0 = (if \<not> py_eq av bv then [Replace (Name key) bv] else [])
            else \<exists>dd. differ_at E f (path @ ''/'' @ key) av bv (path @ ''/'' @ key) P = Inr (dd, Q) \<and>
                 e0 = (if dd \<noteq> [] then [Patch (Name key) dd] else [])"
    by blast
  have e0: "e0 = [] \<or> (\<exists>e. e0 = [e] \<and> entry_key e = Name key \<and> (is_patch e \<or> is_replace e))"
  proof (cases "plainly_compared av bv")
    case True
    with sh show ?thesis by (cases "py_eq av bv") simp_all
  next
    case False
    with sh obtain dd where "e0 = (if dd \<noteq> [] then [Patch (Name key) dd] else [])" by auto
    then show ?thesis by (cases "dd = []") simp_all
  qed
  from Cons.IH [OF rest dk] obtain S where all: "list_all (\<lambda>e. is_patch e \<or> is_replace e) new'"
    and S: "S \<subseteq> set keys" "map entry_key new' = map Name (filter (\<lambda>k. k \<in> S) keys)" by auto
  from S nk have f1: "filter (\<lambda>k. k \<in> insert key S) keys = filter (\<lambda>k. k \<in> S) keys"
    by (auto intro!: filter_cong)
  from S nk have k: "key \<notin> S" by auto
  from e0 show ?case
  proof
    assume "e0 = []"
    with new all S k show ?thesis by (auto intro!: exI [of _ S])
  next
    assume "\<exists>e. e0 = [e] \<and> entry_key e = Name key \<and> (is_patch e \<or> is_replace e)"
    then obtain e where "e0 = [e]" "entry_key e = Name key" "is_patch e \<or> is_replace e" by auto
    with new all S f1 show ?thesis
      by (intro conjI exI [of _ "insert key S"]) auto
  qed
qed

lemma add_loop_eq:
  "add_loop b keys di = Inr di' \<Longrightarrow>
     \<exists>adds. di' = di @ adds \<and> list_all is_add adds \<and> map entry_key adds = map Name keys"
proof (induction keys arbitrary: di)
  case Nil
  then show ?case by simp
next
  case (Cons key keys)
  then obtain bv where bv: "map_of b key = Some bv"
    and rest: "add_loop b keys (di @ [Add (Name key) bv]) = Inr di'"
    by (auto split: option.splits)
  from Cons.IH [OF rest] obtain adds where "di' = (di @ [Add (Name key) bv]) @ adds"
    "list_all is_add adds" "map entry_key adds = map Name keys" by auto
  then show ?case by (intro exI [of _ "Add (Name key) bv # adds"]) simp
qed


lemma common_loop_key_names:
  assumes "common_loop E f a b path keys [] P = Inr (new, P')" and "distinct keys"
  shows "entry_key ` set new \<subseteq> Name ` set keys"
proof -
  from common_loop_names [OF assms] obtain S where
    "map entry_key new = map Name (filter (\<lambda>k. k \<in> S) keys)" by auto
  then have "set (map entry_key new) = set (map Name (filter (\<lambda>k. k \<in> S) keys))" by simp
  then show ?thesis by auto
qed

lemma common_loop_entry:
  assumes "common_loop E f a b path keys [] P = Inr (new, P')" and "distinct keys"
    and "k \<in> set keys" "map_of a k = Some av" "map_of b k = Some bv"
  shows "if plainly_compared av bv
         then (Replace (Name k) bv \<in> set new \<longleftrightarrow> \<not> py_eq av bv) \<and>
              (\<forall>dd. Patch (Name k) dd \<notin> set new)
         else (\<forall>v. Replace (Name k) v \<notin> set new) \<and>
              (\<exists>dd Q Q'. differ_at E f (path @ ''/'' @ k) av bv (path @ ''/'' @ k) Q = Inr (dd, Q') \<and>
                 (\<forall>dd'. Patch (Name k) dd' \<in> set new \<longleftrightarrow> dd' = dd \<and> dd \<noteq> []))"
  using assms(1-3)
proof (induction keys arbitrary: new P)
  case Nil
  then show ?case by simp
next
  case (Cons key keys)
  from Cons.prems(2) have nk: "key \<notin> set keys" and dk: "distinct keys" by auto
  from common_loop_ConsD [OF Cons.prems(1)] obtain av0 bv0 e0 new' Q where
    av0: "map_of a key = Some av0" and bv0: "map_of b key = Some bv0"
    and rest: "common_loop E f a b path keys [] Q = Inr (new', P')"
    and new: "new = e0 @ new'"
    and sh: "if plainly_compared av0 bv0
            then path \<notin> dom P \<and> Q = P \<and>
                 e0 = (if \<not> py_eq av0 bv0 then [Replace (Name key) bv0] else [])
            else \<exists>dd. differ_at E f (path @ ''/'' @ key) av0 bv0 (path @ ''/'' @ key) P = Inr (dd, Q) \<and>
                 e0 = (if dd \<noteq> [] then [Patch (Name key) dd] else [])"
    by blast
  from common_loop_key_names [OF rest dk] have names: "entry_key ` set new' \<subseteq> Name ` set keys" .
  have e0_keys: "entry_key ` set e0 \<subseteq> {Name key}"
    using sh by (auto split: if_splits)
  show ?case
  proof (cases "k = key")
    case True
    with av0 bv0 assms(4,5) have eq: "av0 = av" "bv0 = bv" by auto
    from names nk True have no: "\<And>e. e \<in> set new' \<Longrightarrow> entry_key e \<noteq> Name k" by auto
    then have noR: "\<And>v. Replace (Name k) v \<notin> set new'" and noP: "\<And>dd. Patch (Name k) dd \<notin> set new'"
      by force+
    show ?thesis
    proof (cases "plainly_compared av bv")
      case plain: True
      with sh eq True new noR noP show ?thesis by (auto split: if_splits)
    next
      case False
      with sh eq obtain dd where
        d: "differ_at E f (path @ ''/'' @ key) av bv (path @ ''/'' @ key) P = Inr (dd, Q)"
        and e0: "e0 = (if dd \<noteq> [] then [Patch (Name key) dd] else [])" by auto
      have "\<forall>dd'. Patch (Name k) dd' \<in> set new \<longleftrightarrow> dd' = dd \<and> dd \<noteq> []"
        using e0 new noP True by auto
      moreover have "\<forall>v. Replace (Name k) v \<notin> set new" using e0 new noR by auto
      ultimately show ?thesis using False d True by auto
    qed
  next
    case False
    with Cons.prems(3) have "k \<in> set keys" by simp
    from Cons.IH [OF rest dk this] have IH: "if plainly_compared av bv
         then (Replace (Name k) bv \<in> set new' \<longleftrightarrow> \<not> py_eq av bv) \<and>
              (\<forall>dd. Patch (Name k) dd \<notin> set new')
         else (\<forall>v. Replace (Name k) v \<notin> set new') \<and>
              (\<exists>dd Q Q'. differ_at E f (path @ ''/'' @ k) av bv (path @ ''/'' @ k) Q = Inr (dd, Q') \<and>
                 (\<forall>dd'. Patch (Name k) dd' \<in> set new' \<longleftrightarrow> dd' = dd \<and> dd \<noteq> []))" .
    from e0_keys False have "\<And>e. e \<in> set e0 \<Longrightarrow> entry_key e \<noteq> Name k" by auto
    then have "\<And>v. Replace (Name k) v \<notin> set e0" and "\<And>dd. Patch (Name k) dd \<notin> set e0"
      by force+
    with IH new show ?thesis by (auto split: if_splits)
  qed
qed

lemma common_loop_conflict:
  assumes step: "\<And>sp x y Q. J Q \<Longrightarrow> post (\<lambda>_. False) Q (differ_at E f sp x y sp Q)"
    and Jg: "\<And>Q Q'. J Q \<Longrightarrow> grows Q Q' \<Longrightarrow> J Q'"
    and "J P" "path \<in> dom P" "set keys \<subseteq> dom (map_of a) \<inter> dom (map_of b)"
    and "k \<in> set keys" "map_of a k = Some av" "map_of b k = Some bv" "plainly_compared av bv"
  shows "common_loop E f a b path keys di P = Inl PredicateConflict \<or>
         (\<exists>k' av' bv' Q err. k' \<in> set (takeWhile (\<lambda>x. x \<noteq> k) keys) \<and>
            map_of a k' = Some av' \<and> map_of b k' = Some bv' \<and> \<not> plainly_compared av' bv' \<and>
            differ_at E f (path @ ''/'' @ k') av' bv' (path @ ''/'' @ k') Q = Inl err \<and>
            common_loop E f a b path keys di P = Inl err)"
  using assms(3-6)
proof (induction keys arbitrary: di P)
  case Nil
  then show ?case by simp
next
  case (Cons key keys)
  from Cons.prems(3) obtain av0 bv0 where av0: "map_of a key = Some av0"
    and bv0: "map_of b key = Some bv0" by auto
  show ?case
  proof (cases "plainly_compared av0 bv0")
    case True
    with av0 bv0 Cons.prems(2) show ?thesis by (auto simp: plainly_compared_def)
  next
    case False
    with assms(7-9) av0 bv0 have ne: "key \<noteq> k" by auto
    with Cons.prems(4) have k: "k \<in> set keys" by simp
    from False have rec: "type_of av0 = type_of bv0 \<and> \<not> is_atomic av0"
      by (simp add: plainly_compared_def)
    let ?sp = "path @ ''/'' @ key"
    show ?thesis
    proof (cases "differ_at E f ?sp av0 bv0 ?sp P")
      case (Inl err)
      with rec av0 bv0 have "common_loop E f a b path (key # keys) di P = Inl err"
        by (simp add: Let_def differ_at_simp)
      with Inl av0 bv0 False ne show ?thesis by (intro disjI2 exI [of _ key]) auto
    next
      case (Inr r)
      obtain dd Q where r: "r = (dd, Q)" by (cases r) auto
      from step [OF Cons.prems(1), of ?sp av0 bv0] Inr r have g: "grows P Q" by simp
      let ?di = "if dd \<noteq> [] then di @ [Patch (Name key) dd] else di"
      have eq: "common_loop E f a b path (key # keys) di P = common_loop E f a b path keys ?di Q"
        using rec av0 bv0 Inr r by (simp add: Let_def differ_at_simp)
      from Cons.IH [OF Jg [OF Cons.prems(1) g] grows_dom [OF g Cons.prems(2)] _ k, of ?di]
        Cons.prems(3)
      have "common_loop E f a b path keys ?di Q = Inl PredicateConflict \<or>
         (\<exists>k' av' bv' Q' err. k' \<in> set (takeWhile (\<lambda>x. x \<noteq> k) keys) \<and>
            map_of a k' = Some av' \<and> map_of b k' = Some bv' \<and> \<not> plainly_compared av' bv' \<and>
            differ_at E f (path @ ''/'' @ k') av' bv' (path @ ''/'' @ k') Q' = Inl err \<and>
            common_loop E f a b path keys ?di Q = Inl err)" by simp
      then show ?thesis unfolding eq using ne by fastforce
    qed
  qed
qed

lemma takeWhile_less:
  assumes "sorted keys" "distinct keys" "k' \<in> set (takeWhile (\<lambda>x. x \<noteq> k) keys)" "k \<in> set keys"
  shows "k' < (k :: 'a :: linorder)"
  using assms
proof (induction keys)
  case Nil
  then show ?case by simp
next
  case (Cons x xs)
  show ?case
  proof (cases "x = k")
    case True
    with Cons.prems show ?thesis by simp
  next
    case False
    with Cons.prems have k: "k \<in> set xs" by simp
    show ?thesis
    proof (cases "k' = x")
      case True
      with Cons.prems(1) k False show ?thesis by (auto simp: less_le)
    next
      case ne: False
      with Cons.prems False have "k' \<in> set (takeWhile (\<lambda>x. x \<noteq> k) xs)" by simp
      with Cons.IH k Cons.prems show ?thesis by simp
    qed
  qed
qed






section \<open>The text diff of two strings\<close>

text \<open>
  The character diff is empty for equal strings only: where the block script is empty,
  the two sequences are equal element by element.
\<close>

lemma common_prefix_take:
  "list_all2 py_eq (take (common_prefix xs ys) xs) (take (common_prefix xs ys) ys)"
  by (induction xs ys rule: common_prefix.induct) simp_all

lemma find_longest_match_block:
  assumes "find_longest_match a b = (i, j, k)" and "0 < k"
  shows "k = common_prefix (drop i a) (drop j b)"
proof -
  from fold_better_block_cases [of "block_candidates a b" "(0, 0, 0)"] assms
  have "(i, j, k) \<in> set (block_candidates a b)"
    by (auto simp: find_longest_match_def)
  then show ?thesis by (auto simp: block_candidates_def)
qed

lemma block_script_Nil_D: "block_script x a b = [] \<Longrightarrow> list_all2 py_eq a b"
proof (induction x a b rule: block_script.induct)
  case (1 x a b)
  obtain i j k where m: "find_longest_match a b = (i, j, k)"
    by (cases "find_longest_match a b") auto
  show ?case
  proof (cases "k = 0")
    case True
    with "1.prems" m have "a = [] \<and> b = []"
      by (subst (asm) block_script.simps) simp
    then show ?thesis by simp
  next
    case False
    then have k: "0 < k" by simp
    from find_longest_match_bounds [OF m k] have ij: "i < length a" "j < length b" by auto
    from "1.prems" m False have l: "block_script x (take i a) (take j b) = []"
      and r: "block_script (x + i + k) (drop (i + k) a) (drop (j + k) b) = []"
      by (subst (asm) block_script.simps, simp)+
    from "1.IH"(1) [OF m [symmetric] refl False l] have L: "list_all2 py_eq (take i a) (take j b)" .
    from "1.IH"(2) [OF m [symmetric] refl False r]
    have R: "list_all2 py_eq (drop (i + k) a) (drop (j + k) b)" .
    from list_all2_lengthD [OF L] ij have eq: "i = j" by simp
    from find_longest_match_block [OF m k] common_prefix_take [of "drop i a" "drop j b"]
    have M: "list_all2 py_eq (take k (drop i a)) (take k (drop j b))" by simp
    have "a = take i a @ take k (drop i a) @ drop (i + k) a"
      by (metis append_take_drop_id drop_drop add.commute)
    moreover have "b = take j b @ take k (drop j b) @ drop (j + k) b"
      by (metis append_take_drop_id drop_drop add.commute)
    moreover from L M R
    have "list_all2 py_eq (take i a @ take k (drop i a) @ drop (i + k) a)
            (take j b @ take k (drop j b) @ drop (j + k) b)"
      by (intro list_all2_appendI)
    ultimately show ?thesis by simp
  qed
qed

lemma list_all2_py_eq_characters: "list_all2 py_eq (characters s) (characters t) \<Longrightarrow> s = t"
  by (induction s arbitrary: t) (auto simp: characters_def list_all2_Cons1)

lemma diff_strings_Nil_iff: "diff_strings s t = [] \<longleftrightarrow> s = t"
proof
  assume "diff_strings s t = []"
  then have "list_all2 py_eq (characters s) (characters t)"
    unfolding diff_strings_def diff_sequence_difflib_def by (rule block_script_Nil_D)
  then show "s = t" by (rule list_all2_py_eq_characters)
next
  assume "s = t"
  then show "diff_strings s t = []" by (simp add: diff_strings_same)
qed

lemma diff_strs_Inr: "diff E (VStr s) (VStr t) sp Q = Inr (dd, Q') \<Longrightarrow> dd = diff_strings s t"
  by (auto simp: validate_result_def split: sum.splits)

lemma diff_dicts_with_decomp:
  assumes "diff_dicts_with E f a b path P = Inr (d, P')"
  shows "\<exists>new adds.
           d = map (\<lambda>k. Remove (Name k)) (sort (filter (\<lambda>k. k \<notin> set (dict_keys b)) (dict_keys a)))
                 @ new @ adds \<and>
           common_loop E f a b path (sort (filter (\<lambda>k. k \<in> set (dict_keys b)) (dict_keys a))) [] P
             = Inr (new, P') \<and>
           list_all is_add adds"
proof -
  let ?rs = "map (\<lambda>k. Remove (Name k)) (sort (filter (\<lambda>k. k \<notin> set (dict_keys b)) (dict_keys a)))"
  let ?ks = "sort (filter (\<lambda>k. k \<in> set (dict_keys b)) (dict_keys a))"
  let ?as = "sort (filter (\<lambda>k. k \<notin> set (dict_keys a)) (dict_keys b))"
  from assms obtain di' di'' where
    cl: "common_loop E f a b path ?ks ?rs P = Inr (di', P')"
    and al: "add_loop b ?as di' = Inr di''" and v: "validated di'' = Inr d"
    by (auto simp: diff_dicts_with_def Let_def split: sum.splits)
  from cl obtain new where new: "common_loop E f a b path ?ks [] P = Inr (new, P')"
    and di': "di' = ?rs @ new"
    by (subst (asm) common_loop_onto) (auto simp: onto_def split: sum.splits)
  from add_loop_eq [OF al] obtain adds where "di'' = di' @ adds" "list_all is_add adds" by auto
  with validated_Inr [OF v] di' new show ?thesis by auto
qed

section \<open>Concrete runs\<close>

text \<open>
  An environment for concrete runs: the default differs; the two functions of snakes.py,
  which no run from a registry with one predicate per path reaches, find no snake and
  give an empty diff. \<open>result_diff\<close> drops the registry from a result.
\<close>

definition default_env :: env where
  "default_env =
     \<lparr>differs = default_differs,
      compute_snakes_multilevel = (\<lambda>a b compares. []),
      compute_diff_from_snakes = (\<lambda>a b snakes path P. Inr ([], P))\<rparr>"

definition result_diff :: "error + (diff \<times> registry) \<Rightarrow> error + diff" where
  "result_diff r = map_sum id fst r"

lemma only_eq_default_predicates: "only_eq default_predicates"
  by (simp add: only_eq_def default_predicates_def)

lemma differs_default_env: "differs default_env = default_differs"
  by (simp add: default_env_def)

lemma result_diff_Inr: "result_diff r = Inr d \<longleftrightarrow> (\<exists>Q. r = Inr (d, Q))"
  by (cases r) (auto simp: result_diff_def)

lemma differ_at_default: "differs E = default_differs \<Longrightarrow> differ_at E f sp = f"
  by (simp add: differ_at_def default_differs_def)

lemma diff_single_level:
  assumes "differs E = default_differs" "single_level Q"
  shows "post internal_error Q (diff E x y sp Q)"
proof -
  from assms(1) have "differs E = Map.empty" by (simp add: default_differs_def)
  from diff_post [OF this, of Q x y sp] assms(2) show ?thesis by simp
qed


section \<open>Replaying a diff\<close>










































section \<open>The claims\<close>




text \<open>
  C2: for all lists \<open>a\<close> and \<open>b\<close>, with the default differs and predicates, no
  assertion of \<^verbatim>\<open>diff_lists\<close> and no index fails; a diff that \<^verbatim>\<open>diff_lists\<close> returns
  accounts for every position of \<open>a\<close> and every position of \<open>b\<close> exactly once; and
  whenever the loop over the entries finishes, whatever the shallow diff, the start and
  the registry, its cursors are \<open>length a\<close> and \<open>length b\<close>, which is what the two
  final assertions ask.
\<close>

theorem diff_lists_accounts_for_every_index:
  assumes "differs E = default_differs"
  shows "diff_lists E a b path default_predicates None \<noteq> Inl AssertionError \<and>
         diff_lists E a b path default_predicates None \<noteq> Inl IndexError \<and>
         (\<forall>d. result_diff (diff_lists E a b path default_predicates None) = Inr d
            \<longrightarrow> accounted d (length a) (length b)) \<and>
         (\<forall>sd i j di Q i' j' di' Q'.
            entries_loop (diff E) (path @ ''/*'') a b sd i j di Q = Inr (i', j', di', Q')
            \<longrightarrow> i' = length a \<and> j' = length b)"
proof -
  have sl: "single_level default_predicates"
    by (rule only_eq_single_level [OF only_eq_default_predicates])
  have "post internal_error default_predicates
          (diff_lists_with E (diff E) a b path default_predicates None)"
  proof (rule diff_lists_with_post [where J = single_level and R = "\<lambda>_ _. True"])
    show "differs E (path @ ''/'' @ ''*'') = None" using assms by (simp add: default_differs_def)
    show "\<And>x y Q. x \<in> set a \<Longrightarrow> \<not> is_atomic x \<Longrightarrow> True \<Longrightarrow> single_level Q
        \<Longrightarrow> post internal_error Q (diff E x y (path @ ''/'' @ ''*'') Q)"
      by (rule diff_single_level [OF assms])
    show "\<And>Q Q'. single_level Q \<Longrightarrow> grows Q Q' \<Longrightarrow> single_level Q'" by (rule single_level_grows)
    show "\<And>Q p cs. single_level Q \<Longrightarrow> Q p = Some cs
        \<Longrightarrow> \<exists>c. cs = [c] \<and> (\<forall>x y. apply_compare c x y \<longrightarrow> True)"
      by (auto simp: single_level_def length_Suc_conv)
    show "single_level default_predicates" by (rule sl)
    show "\<not> internal_error MalformedDiff" by (simp add: internal_error_def)
  qed
  then have "diff_lists E a b path default_predicates None \<noteq> Inl AssertionError"
    and "diff_lists E a b path default_predicates None \<noteq> Inl IndexError"
    by (auto simp: diff_lists_def post_def internal_error_def)
  moreover have "accounted d (length a) (length b)"
    if "result_diff (diff_lists E a b path default_predicates None) = Inr d" for d
    using that diff_lists_with_accounted [OF _ sl]
    by (auto simp: result_diff_Inr diff_lists_def)
  moreover have "i' = length a \<and> j' = length b"
    if "entries_loop (diff E) (path @ ''/*'') a b sd i j di Q = Inr (i', j', di', Q')"
    for sd i j di Q i' j' di' Q'
    using that by (rule entries_loop_cursors)
  ultimately show ?thesis by blast
qed

theorem diff_lists_accounts_for_every_index_witness:
  "differs default_env = default_differs \<and>
   result_diff
     (diff_lists default_env [VInt 1, VInt 2, VInt 3] [VInt 1, VInt 3, VInt 2, VInt 4] []
        default_predicates None)
     = Inr [Add (Idx 1) (VInt 3), Add (Idx 2) (VInt 4), Remove (Idx 2)] \<and>
   accounted [Add (Idx 1) (VInt 3), Add (Idx 2) (VInt 4), Remove (Idx 2)]
     (length [VInt 1, VInt 2, VInt 3]) (length [VInt 1, VInt 3, VInt 2, VInt 4])"
proof -
  have r: "result_diff
     (diff_lists default_env [VInt 1, VInt 2, VInt 3] [VInt 1, VInt 3, VInt 2, VInt 4] []
        default_predicates None)
     = Inr [Add (Idx 1) (VInt 3), Add (Idx 2) (VInt 4), Remove (Idx 2)]"
    by code_simp
  from diff_lists_accounts_for_every_index [OF differs_default_env,
      of "[VInt 1, VInt 2, VInt 3]" "[VInt 1, VInt 3, VInt 2, VInt 4]" "[]"] r
  show ?thesis by (simp add: differs_default_env)
qed

text \<open>
  C3: \<open>diff\<close> fails with \<open>UnsupportedValueKind\<close> whenever the two values are not both
  lists, both dicts or both strings, whatever the path and the registries; the failure is
  the whole result, no diff comes with it. For two lists, two dicts or two strings, the
  default differs and the default predicates, it does not fail with this error.
\<close>

theorem diff_unsupported_value_kind:
  "(\<not> diffable a b \<longrightarrow> diff E a b path P = Inl UnsupportedValueKind) \<and>
   (diffable a b \<longrightarrow> differs E = default_differs \<longrightarrow>
      diff E a b path default_predicates \<noteq> Inl UnsupportedValueKind)"
proof (intro conjI impI)
  assume "\<not> diffable a b"
  then show "diff E a b path P = Inl UnsupportedValueKind" by (rule diff_undiffable)
next
  assume d: "diffable a b" and E: "differs E = default_differs"
  from E have "differs E = Map.empty" by (simp add: default_differs_def)
  from diff_post [OF this, of default_predicates a b path] d only_eq_default_predicates
  have "post (\<lambda>err. internal_error err \<or> err = UnsupportedValueKind) default_predicates
          (diff E a b path default_predicates)" by simp
  then show "diff E a b path default_predicates \<noteq> Inl UnsupportedValueKind"
    by (auto simp: post_def)
qed

theorem diff_unsupported_value_kind_witness:
  "\<not> diffable (VInt 1) (VList []) \<and>
   diff default_env (VInt 1) (VList []) [] default_predicates = Inl UnsupportedValueKind \<and>
   diffable (VList [VStr ''x'']) (VList [VList []]) \<and>
   differs default_env = default_differs \<and>
   diff default_env (VList [VStr ''x'']) (VList [VList []]) [] default_predicates
     \<noteq> Inl UnsupportedValueKind"
  using diff_unsupported_value_kind [of "VInt 1" "VList []" default_env "[]" default_predicates]
    diff_unsupported_value_kind [of "VList [VStr ''x'']" "VList [VList []]" default_env "[]"]
  by (simp add: differs_default_env)

text \<open>
  C4: for every document \<open>a\<close> made of lists, dicts and strings only, \<open>diff a a\<close> (default
  differs, default predicates, any path) returns the empty diff.
\<close>

theorem diff_identity:
  assumes "composite a" and "differs E = default_differs"
  shows "result_diff (diff E a a path default_predicates) = Inr []"
proof -
  from assms(2) have "differs E = Map.empty" by (simp add: default_differs_def)
  from diff_same [OF this only_eq_default_predicates assms(1), of path]
  show ?thesis by (auto simp: result_diff_def)
qed

theorem diff_identity_witness:
  "composite (VDict [(''cells'', VList [VStr ''x = 1'', VDict []]), (''name'', VStr ''nb'')]) \<and>
   differs default_env = default_differs \<and>
   result_diff
     (diff default_env
        (VDict [(''cells'', VList [VStr ''x = 1'', VDict []]), (''name'', VStr ''nb'')])
        (VDict [(''cells'', VList [VStr ''x = 1'', VDict []]), (''name'', VStr ''nb'')])
        ''/nb'' default_predicates) = Inr []"
  using diff_identity
    [of "VDict [(''cells'', VList [VStr ''x = 1'', VDict []]), (''name'', VStr ''nb'')]"
      default_env "''/nb''"]
  by (simp add: differs_default_env)




text \<open>
  C6 (as amended): where \<^verbatim>\<open>diff_dicts\<close> returns a diff, a key of both dicts whose
  values are of different types, or atomic for \<^verbatim>\<open>is_atomic\<close> (which a string is not),
  has a Replace entry with the new value exactly when the two values are unequal, and
  never a Patch. Two strings under one key are not atomic: they never get a Replace, and
  with the default differs they get a Patch with their character diff exactly when they
  are unequal.
\<close>

theorem diff_dicts_plain_values_replace:
  assumes "result_diff (diff_dicts E a b path P) = Inr d"
    and "map_of a k = Some avalue" and "map_of b k = Some bvalue"
  shows "(type_of avalue \<noteq> type_of bvalue \<or> is_atomic avalue \<longrightarrow>
            (Replace (Name k) bvalue \<in> set d \<longleftrightarrow> \<not> py_eq avalue bvalue) \<and>
            (\<forall>dd. Patch (Name k) dd \<notin> set d)) \<and>
         (\<forall>s t. avalue = VStr s \<longrightarrow> bvalue = VStr t \<longrightarrow> differs E = default_differs \<longrightarrow>
            (\<forall>v. Replace (Name k) v \<notin> set d) \<and>
            (\<forall>dd. Patch (Name k) dd \<in> set d \<longleftrightarrow> dd = diff_strings s t \<and> s \<noteq> t))"
proof -
  let ?rs = "map (\<lambda>k. Remove (Name k)) (sort (filter (\<lambda>k. k \<notin> set (dict_keys b)) (dict_keys a)))"
  let ?ks = "sort (filter (\<lambda>k. k \<in> set (dict_keys b)) (dict_keys a))"
  from assms(1) obtain Q where "diff_dicts_with E (diff E) a b path P = Inr (d, Q)"
    by (auto simp: result_diff_Inr diff_dicts_def)
  from diff_dicts_with_decomp [OF this] obtain new adds where d: "d = ?rs @ new @ adds"
    and new: "common_loop E (diff E) a b path ?ks [] P = Inr (new, Q)"
    and adds: "list_all is_add adds" by blast
  have R: "Replace (Name k) v \<in> set d \<longleftrightarrow> Replace (Name k) v \<in> set new" for v
    using adds by (auto simp: d list_all_iff)
  have Pt: "Patch (Name k) dd \<in> set d \<longleftrightarrow> Patch (Name k) dd \<in> set new" for dd
    using adds by (auto simp: d list_all_iff)
  have dk: "distinct ?ks" by (simp add: dict_keys_def)
  from assms(2,3) have k: "k \<in> set ?ks"
    by (auto simp: dom_map_of_conv_image_fst [symmetric])
  note ce = common_loop_entry [OF new dk k assms(2,3)]
  have A: "(Replace (Name k) bvalue \<in> set d \<longleftrightarrow> \<not> py_eq avalue bvalue) \<and>
           (\<forall>dd. Patch (Name k) dd \<notin> set d)"
    if "type_of avalue \<noteq> type_of bvalue \<or> is_atomic avalue"
  proof -
    from that have "plainly_compared avalue bvalue" by (auto simp: plainly_compared_def)
    with ce show ?thesis by (simp add: R Pt)
  qed
  have B: "(\<forall>v. Replace (Name k) v \<notin> set d) \<and>
           (\<forall>dd. Patch (Name k) dd \<in> set d \<longleftrightarrow> dd = diff_strings s t \<and> s \<noteq> t)"
    if "avalue = VStr s" "bvalue = VStr t" "differs E = default_differs" for s t
  proof -
    from that(1,2) have np: "\<not> plainly_compared avalue bvalue"
      by (simp add: plainly_compared_def)
    with ce that obtain dd Q1 Q2 where nr: "\<forall>v. Replace (Name k) v \<notin> set new"
      and dd: "diff E (VStr s) (VStr t) (path @ ''/'' @ k) Q1 = Inr (dd, Q2)"
      and pt: "\<forall>dd'. Patch (Name k) dd' \<in> set new \<longleftrightarrow> dd' = dd \<and> dd \<noteq> []"
      by (auto simp: differ_at_default)
    from diff_strs_Inr [OF dd] have "dd = diff_strings s t" .
    with nr pt show ?thesis by (simp add: R Pt diff_strings_Nil_iff)
  qed
  from A B show ?thesis by blast
qed

theorem diff_dicts_plain_values_replace_witness:
  "result_diff
     (diff_dicts default_env [(''n'', VInt 1), (''s'', VStr ''a'')]
        [(''n'', VInt 2), (''s'', VStr ''b'')] [] default_predicates)
     = Inr [Replace (Name ''n'') (VInt 2),
            Patch (Name ''s'') [Remove (Idx 0), Add (Idx 1) (VStr ''b'')]] \<and>
   is_atomic (VInt 1) \<and> \<not> py_eq (VInt 1) (VInt 2) \<and>
   Replace (Name ''n'') (VInt 2)
     \<in> set [Replace (Name ''n'') (VInt 2),
            Patch (Name ''s'') [Remove (Idx 0), Add (Idx 1) (VStr ''b'')]] \<and>
   differs default_env = default_differs \<and>
   Patch (Name ''s'') (diff_strings ''a'' ''b'')
     \<in> set [Replace (Name ''n'') (VInt 2),
            Patch (Name ''s'') [Remove (Idx 0), Add (Idx 1) (VStr ''b'')]]"
proof -
  let ?a = "[(''n'', VInt 1), (''s'', VStr ''a'')]"
  let ?b = "[(''n'', VInt 2), (''s'', VStr ''b'')]"
  let ?d = "[Replace (Name ''n'') (VInt 2),
            Patch (Name ''s'') [Remove (Idx 0), Add (Idx 1) (VStr ''b'')]]"
  have r: "result_diff (diff_dicts default_env ?a ?b [] default_predicates) = Inr ?d"
    by code_simp
  have n: "map_of ?a ''n'' = Some (VInt 1)" "map_of ?b ''n'' = Some (VInt 2)" by simp_all
  have s: "map_of ?a ''s'' = Some (VStr ''a'')" "map_of ?b ''s'' = Some (VStr ''b'')" by simp_all
  from diff_dicts_plain_values_replace [OF r n]
  have 1: "Replace (Name ''n'') (VInt 2) \<in> set ?d" by simp
  from diff_dicts_plain_values_replace [OF r s] differs_default_env
  have 2: "Patch (Name ''s'') (diff_strings ''a'' ''b'') \<in> set ?d" by simp
  from r 1 2 differs_default_env show ?thesis by simp
qed

text \<open>
  As stated the claim fails: two unequal strings under one key give a Patch with their
  character diff, and no Replace.
\<close>

theorem diff_dicts_strings_patched:
  "map_of [(''k'', VStr ''a'')] ''k'' = Some (VStr ''a'') \<and>
   map_of [(''k'', VStr ''b'')] ''k'' = Some (VStr ''b'') \<and>
   \<not> py_eq (VStr ''a'') (VStr ''b'') \<and>
   result_diff
     (diff_dicts default_env [(''k'', VStr ''a'')] [(''k'', VStr ''b'')] [] default_predicates)
     = Inr [Patch (Name ''k'') [Remove (Idx 0), Add (Idx 1) (VStr ''b'')]] \<and>
   Replace (Name ''k'') (VStr ''b'')
     \<notin> set [Patch (Name ''k'') [Remove (Idx 0), Add (Idx 1) (VStr ''b'')]]"
proof -
  have "result_diff
     (diff_dicts default_env [(''k'', VStr ''a'')] [(''k'', VStr ''b'')] [] default_predicates)
     = Inr [Patch (Name ''k'') [Remove (Idx 0), Add (Idx 1) (VStr ''b'')]]"
    by code_simp
  then show ?thesis by simp
qed

text \<open>
  C7 (as amended): the strategy that \<^verbatim>\<open>diff_sequence\<close> uses when nothing else is
  configured is the exhaustive one: the module's global is \<open>bruteforce\<close>, and
  \<^verbatim>\<open>diff_sequence\<close> returns what \<^verbatim>\<open>diff_sequence_bruteforce\<close> returns, for every
  comparison.
\<close>

theorem diff_sequence_default_is_bruteforce:
  "diff_sequence_algorithm = ''bruteforce'' \<and>
   diff_sequence a b compare = Inr (diff_sequence_bruteforce a b compare)"
  by (simp add: diff_sequence_algorithm_def)

text \<open>The claim as stated fails: the configured strategy is not the Myers one.\<close>

theorem diff_sequence_default_not_myers:
  "diff_sequence_algorithm \<noteq> ''myers'' \<and>
   diff_sequence_using diff_sequence_algorithm [VInt 1] [VInt 2] OpEq
     = Inr (diff_sequence_bruteforce [VInt 1] [VInt 2] OpEq)"
  by (simp add: diff_sequence_algorithm_def diff_sequence_using_def)

text \<open>
  C8 (as amended): with the default differs and one predicate per registered path, when
  the current path is registered and some key of both dicts has values of different
  types or atomic ones, \<^verbatim>\<open>diff_dicts\<close> returns no diff: it fails with
  \<open>PredicateConflict\<close>, unless the recursive diff of a smaller key of both dicts has
  failed before, and then with the error of that diff.
\<close>

theorem diff_dicts_predicate_conflict:
  assumes "differs E = default_differs" and "single_level P" and "path \<in> dom P"
    and "map_of a k = Some avalue" and "map_of b k = Some bvalue"
    and "type_of avalue \<noteq> type_of bvalue \<or> is_atomic avalue"
  shows "diff_dicts E a b path P = Inl PredicateConflict \<or>
         (\<exists>k' avalue' bvalue' Q err.
            k' < k \<and> map_of a k' = Some avalue' \<and> map_of b k' = Some bvalue' \<and>
            type_of avalue' = type_of bvalue' \<and> \<not> is_atomic avalue' \<and>
            diff E avalue' bvalue' (path @ ''/'' @ k') Q = Inl err \<and>
            diff_dicts E a b path P = Inl err)"
proof -
  let ?rs = "map (\<lambda>k. Remove (Name k)) (sort (filter (\<lambda>k. k \<notin> set (dict_keys b)) (dict_keys a)))"
  let ?ks = "sort (filter (\<lambda>k. k \<in> set (dict_keys b)) (dict_keys a))"
  have pc: "plainly_compared avalue bvalue" using assms(6) by (auto simp: plainly_compared_def)
  have ks: "sorted ?ks" "distinct ?ks" by (simp_all add: dict_keys_def)
  from assms(4,5) have k: "k \<in> set ?ks"
    by (auto simp: dom_map_of_conv_image_fst [symmetric])
  have sub: "set ?ks \<subseteq> dom (map_of a) \<inter> dom (map_of b)"
    by (auto simp: dom_map_of_conv_image_fst)
  have "common_loop E (diff E) a b path ?ks ?rs P = Inl PredicateConflict \<or>
         (\<exists>k' av' bv' Q err. k' \<in> set (takeWhile (\<lambda>x. x \<noteq> k) ?ks) \<and>
            map_of a k' = Some av' \<and> map_of b k' = Some bv' \<and> \<not> plainly_compared av' bv' \<and>
            differ_at E (diff E) (path @ ''/'' @ k') av' bv' (path @ ''/'' @ k') Q = Inl err \<and>
            common_loop E (diff E) a b path ?ks ?rs P = Inl err)"
  proof (rule common_loop_conflict [where J = single_level])
    show "\<And>sp x y Q. single_level Q \<Longrightarrow> post (\<lambda>_. False) Q (differ_at E (diff E) sp x y sp Q)"
    proof -
      fix sp x y Q
      assume "single_level Q"
      from diff_single_level [OF assms(1) this, of x y sp]
      show "post (\<lambda>_. False) Q (differ_at E (diff E) sp x y sp Q)"
        by (auto simp: post_def differ_at_default [OF assms(1)] split: sum.splits)
    qed
    show "\<And>Q Q'. single_level Q \<Longrightarrow> grows Q Q' \<Longrightarrow> single_level Q'" by (rule single_level_grows)
  qed (use assms pc k sub in auto)
  then show ?thesis
  proof
    assume "common_loop E (diff E) a b path ?ks ?rs P = Inl PredicateConflict"
    then show ?thesis by (simp add: diff_dicts_def diff_dicts_with_def Let_def)
  next
    assume "\<exists>k' av' bv' Q err. k' \<in> set (takeWhile (\<lambda>x. x \<noteq> k) ?ks) \<and>
            map_of a k' = Some av' \<and> map_of b k' = Some bv' \<and> \<not> plainly_compared av' bv' \<and>
            differ_at E (diff E) (path @ ''/'' @ k') av' bv' (path @ ''/'' @ k') Q = Inl err \<and>
            common_loop E (diff E) a b path ?ks ?rs P = Inl err"
    then obtain k' av' bv' Q err where k': "k' \<in> set (takeWhile (\<lambda>x. x \<noteq> k) ?ks)"
      and v: "map_of a k' = Some av'" "map_of b k' = Some bv'" "\<not> plainly_compared av' bv'"
      and e: "differ_at E (diff E) (path @ ''/'' @ k') av' bv' (path @ ''/'' @ k') Q = Inl err"
      and l: "common_loop E (diff E) a b path ?ks ?rs P = Inl err" by blast
    from takeWhile_less [OF ks k' k] have "k' < k" .
    moreover from l have "diff_dicts E a b path P = Inl err"
      by (simp add: diff_dicts_def diff_dicts_with_def Let_def)
    moreover from e have "diff E av' bv' (path @ ''/'' @ k') Q = Inl err"
      by (simp add: differ_at_default [OF assms(1)])
    moreover from v(3) have "type_of av' = type_of bv'" "\<not> is_atomic av'"
      by (auto simp: plainly_compared_def)
    ultimately show ?thesis using v(1,2) by blast
  qed
qed

theorem diff_dicts_predicate_conflict_witness:
  "differs default_env = default_differs \<and>
   single_level [[] \<mapsto> [OpEq]] \<and>
   [] \<in> dom [[] \<mapsto> [OpEq]] \<and>
   map_of [(''a'', VInt 1)] ''a'' = Some (VInt 1) \<and>
   map_of [(''a'', VInt 2)] ''a'' = Some (VInt 2) \<and>
   is_atomic (VInt 1) \<and>
   diff_dicts default_env [(''a'', VInt 1)] [(''a'', VInt 2)] [] [[] \<mapsto> [OpEq]]
     = Inl PredicateConflict"
proof -
  have sl: "single_level [[] \<mapsto> [OpEq]]" by (simp add: single_level_def)
  have d: "[] \<in> dom [[] \<mapsto> [OpEq :: cmp]]" by simp
  have m: "map_of [(''a'', VInt 1)] ''a'' = Some (VInt 1)"
    "map_of [(''a'', VInt 2)] ''a'' = Some (VInt 2)" by simp_all
  have at: "type_of (VInt 1) \<noteq> type_of (VInt 2) \<or> is_atomic (VInt 1)" by simp
  have no: "\<not> k' < ''a'' \<or> map_of [(''a'', VInt 1)] k' = None" for k' :: string by simp
  from diff_dicts_predicate_conflict [OF differs_default_env sl d m at] no
  have "diff_dicts default_env [(''a'', VInt 1)] [(''a'', VInt 2)] [] [[] \<mapsto> [OpEq]]
          = Inl PredicateConflict"
    by (metis option.distinct(1))
  with sl d m differs_default_env show ?thesis by simp
qed

text \<open>
  As stated the claim fails: the path is registered and the key \<open>b\<close> has atomic
  values, but the list under the smaller key \<open>a\<close> is diffed first, under a predicate
  that aligns a list with a string, and the failure is that of the recursive diff.
\<close>

theorem diff_dicts_other_error_first:
  "[] \<in> dom [[] \<mapsto> [OpEq], ''/a'' \<mapsto> [Pred (\<lambda>x y. True)]] \<and>
   map_of [(''a'', VList [VList [VInt 1]]), (''b'', VInt 1)] ''b'' = Some (VInt 1) \<and>
   map_of [(''a'', VList [VStr ''x'']), (''b'', VInt 2)] ''b'' = Some (VInt 2) \<and>
   is_atomic (VInt 1) \<and>
   result_diff
     (diff_dicts default_env [(''a'', VList [VList [VInt 1]]), (''b'', VInt 1)]
        [(''a'', VList [VStr ''x'']), (''b'', VInt 2)] []
        [[] \<mapsto> [OpEq], ''/a'' \<mapsto> [Pred (\<lambda>x y. True)]])
     = Inl UnsupportedValueKind \<and>
   UnsupportedValueKind \<noteq> PredicateConflict"
proof -
  have "result_diff
     (diff_dicts default_env [(''a'', VList [VList [VInt 1]]), (''b'', VInt 1)]
        [(''a'', VList [VStr ''x'']), (''b'', VInt 2)] []
        [[] \<mapsto> [OpEq], ''/a'' \<mapsto> [Pred (\<lambda>x y. True)]])
     = Inl UnsupportedValueKind"
    by code_simp
  then show ?thesis by simp
qed

text \<open>
  C9: in \<^verbatim>\<open>diff_lists\<close> with one predicate \<open>compare\<close> for the path, a Patch stands only
  at a position of \<open>a\<close> whose element is not atomic, and the other entries of the
  result are the entries of the shallow diff, in their order: a pair that the predicate
  aligned and whose element of \<open>a\<close> is atomic gets no entry, equal or not. When all
  elements of \<open>a\<close> are atomic, the result is the shallow diff, whatever the differ
  would say.
\<close>

theorem diff_lists_atomic_pairs_silent:
  assumes "getitem_predicates P path = ([compare], P1)"
  shows "(list_all is_atomic a \<longrightarrow>
            result_diff (diff_lists E a b path P None)
              = validated (diff_sequence_bruteforce a b compare)) \<and>
         (\<forall>d. result_diff (diff_lists E a b path P None) = Inr d \<longrightarrow>
            filter (\<lambda>e. \<not> is_patch e) d = diff_sequence_bruteforce a b compare \<and>
            (\<forall>p cd. Patch (Idx p) cd \<in> set d \<longrightarrow> p < length a \<and> \<not> is_atomic (a ! p)))"
proof -
  have A: "result_diff (diff_lists E a b path P None)
             = validated (diff_sequence_bruteforce a b compare)"
    if "list_all is_atomic a"
    using diff_lists_with_atomic [OF that assms, of E "diff E" b]
    by (simp add: diff_lists_def result_diff_def split: sum.splits)
  have B: "filter (\<lambda>e. \<not> is_patch e) d = diff_sequence_bruteforce a b compare \<and>
           (\<forall>p cd. Patch (Idx p) cd \<in> set d \<longrightarrow> p < length a \<and> \<not> is_atomic (a ! p))"
    if "result_diff (diff_lists E a b path P None) = Inr d" for d
  proof -
    from that obtain Q where "diff_lists_with E (diff E) a b path P None = Inr (d, Q)"
      by (auto simp: result_diff_Inr diff_lists_def)
    from diff_lists_with_patches [OF this assms] show ?thesis .
  qed
  from A B show ?thesis by blast
qed

theorem diff_lists_atomic_pairs_silent_witness:
  "getitem_predicates [[] \<mapsto> [Pred (\<lambda>x y. True)]] [] =
     ([Pred (\<lambda>x y. True)], [[] \<mapsto> [Pred (\<lambda>x y. True)]]) \<and>
   list_all is_atomic [VInt 1] \<and>
   \<not> py_eq (VInt 1) (VInt 2) \<and>
   result_diff (diff_lists default_env [VInt 1] [VInt 2] [] [[] \<mapsto> [Pred (\<lambda>x y. True)]] None)
     = Inr []"
proof -
  have g: "getitem_predicates [[] \<mapsto> [Pred (\<lambda>x y. True)]] [] =
     ([Pred (\<lambda>x y. True)], [[] \<mapsto> [Pred (\<lambda>x y. True)]])"
    by (simp add: getitem_predicates_def)
  have v: "validated (diff_sequence_bruteforce [VInt 1] [VInt 2] (Pred (\<lambda>x y. True))) = Inr []"
    by (simp add: diff_sequence_bruteforce_def)
  from diff_lists_atomic_pairs_silent [OF g, of "[VInt 1]" default_env "[VInt 2]"] v g
  show ?thesis by simp
qed

text \<open>
  C10: for every pair of inputs, \<^verbatim>\<open>diff_notebooks\<close> and \<^verbatim>\<open>diff_single_cells\<close> fail with
  \<^verbatim>\<open>TypeError\<close>: \<^verbatim>\<open>diff_dicts\<close> has no parameter \<^verbatim>\<open>subdiffs\<close>. The call of
  \<^verbatim>\<open>diff_lists\<close> in \<^verbatim>\<open>old_diff_cells\<close>, with the keywords \<^verbatim>\<open>compare\<close> and
  \<^verbatim>\<open>shallow_diff\<close>, is not accepted either.
\<close>

theorem notebook_entry_points_fail:
  "diff_notebooks E nba nbb = Inl TypeError \<and>
   diff_single_cells E a b = Inl TypeError \<and>
   \<not> accepts_call diff_lists_signature 2 [''compare'', ''shallow_diff'']"
  by (simp add: diff_notebooks_def diff_single_cells_def call_diff_dicts_def accepts_call_def
      diff_dicts_signature_def diff_lists_signature_def)

theorem notebook_entry_points_fail_witness:
  "diff_notebooks default_env (VDict [(''cells'', VList [])]) (VDict [(''cells'', VList [])])
     = Inl TypeError \<and>
   diff_single_cells default_env (VDict [(''source'', VStr ''x'')]) (VDict [(''source'', VStr ''y'')])
     = Inl TypeError"
  using notebook_entry_points_fail
    [of default_env "VDict [(''cells'', VList [])]" "VDict [(''cells'', VList [])]"
      "VDict [(''source'', VStr ''x'')]" "VDict [(''source'', VStr ''y'')]"]
  by simp

end
